theory Spec2Isabelle
  imports Main
begin

section \<open>Values of the program\<close>

text \<open>
  The package under verification is the cancellation tree of \<^verbatim>\<open>src/unnamed/part_000\<close>
  (Go's \<^verbatim>\<open>context\<close> package).  Pointers are addresses into an explicit store, because the
  children set of a parent, the cancel handle of a child and the callbacks of timers all
  alias the same node.

  \<^item> \<^verbatim>\<open>error\<close> values are \<open>error option\<close>, \<open>None\<close> being \<^verbatim>\<open>nil\<close>.
  \<^item> \<^verbatim>\<open>time.Time\<close> and \<^verbatim>\<open>time.Duration\<close> are integers (nanoseconds); the overflow of a
    duration is not modelled.
  \<^item> \<^verbatim>\<open>any\<close> is a small universe: \<^verbatim>\<open>nil\<close>, the package's private key \<^verbatim>\<open>&cancelCtxKey\<close>, a
    \<^verbatim>\<open>*cancelCtx\<close>, and a value of some other dynamic type, which is comparable or not.
\<close>

type_synonym addr = nat
type_synonym time = int

datatype error = Canceled | DeadlineExceeded | Other nat

datatype dyntype = ComparableT nat | UncomparableT nat

datatype any = Nil | CancelCtxKey | CancelCtxRef addr | Dyn dyntype nat

datatype fault = Panic string | Deadlock | OutOfFuel

definition andThen :: "fault + 'a \<Rightarrow> ('a \<Rightarrow> fault + 'b) \<Rightarrow> fault + 'b" where
  "andThen m k = (case m of Inl x \<Rightarrow> Inl x | Inr v \<Rightarrow> k v)"

definition nil_deref :: fault where
  "nil_deref = Panic ''invalid memory address or nil pointer dereference''"

text \<open>
  Go's \<^verbatim>\<open>==\<close> on two interface values: equal when the dynamic types and values are equal;
  a run-time panic when both have the same dynamic type and that type is not comparable
  (\<open>None\<close> here).
\<close>

fun iface_eq :: "any \<Rightarrow> any \<Rightarrow> bool option" where
  "iface_eq (Dyn (UncomparableT t) x) (Dyn (UncomparableT u) y) =
     (if t = u then None else Some False)"
| "iface_eq a b = Some (a = b)"

text \<open>\<^verbatim>\<open>reflectlite.TypeOf(key).Comparable()\<close>, for a non-nil key.\<close>

fun Comparable :: "any \<Rightarrow> bool" where
  "Comparable (Dyn (UncomparableT t) x) = False"
| "Comparable k = True"

text \<open>
  A channel is the package's \<^verbatim>\<open>closedchan\<close>, the channel a \<^verbatim>\<open>cancelCtx\<close> made in its
  \<^verbatim>\<open>Done\<close> method (each node makes at most one), or a channel of a foreign implementation
  of the \<^verbatim>\<open>Context\<close> interface.
\<close>

datatype chan = Closedchan | MadeBy addr | Ext nat

text \<open>A \<^verbatim>\<open>canceler\<close>: a pointer with its dynamic type.  A \<^verbatim>\<open>timerCtx\<close> and an
  \<^verbatim>\<open>afterFuncCtx\<close> embed their \<^verbatim>\<open>cancelCtx\<close> as first field, at the same address.\<close>

datatype ptr = CancelCtxPtr addr | TimerCtxPtr addr | AfterFuncCtxPtr addr

fun addr_of :: "ptr \<Rightarrow> addr" where
  "addr_of (CancelCtxPtr a) = a"
| "addr_of (TimerCtxPtr a) = a"
| "addr_of (AfterFuncCtxPtr a) = a"

text \<open>
  A value of the interface type \<^verbatim>\<open>Context\<close>.  \<^verbatim>\<open>valueCtx\<close>, \<^verbatim>\<open>withoutCancelCtx\<close> and
  \<^verbatim>\<open>stopCtx\<close> are never mutated after their construction and are values; the cancelable
  nodes are pointers into the store.  \<open>Foreign\<close> is an implementation of the interface
  from outside the package: its deadline, its done channel, the error it reports once
  that channel is closed, its \<^verbatim>\<open>Value\<close> method, and whether it has an \<^verbatim>\<open>AfterFunc\<close> method.
\<close>

datatype Context =
    NilContext
  | backgroundCtx
  | todoCtx
  | valueCtx Context any any
  | withoutCancelCtx Context
  | stopCtx Context nat
  | Ptr ptr
  | Foreign "time option" "chan option" "error option" "any \<Rightarrow> any" bool

section \<open>The store\<close>

text \<open>The struct \<^verbatim>\<open>cancelCtx\<close>; its mutex \<^verbatim>\<open>mu\<close> is locked when its address is in \<open>held\<close>
  below.  \<open>done_c\<close> is the field \<^verbatim>\<open>done\<close>.\<close>

record cancelCtx =
  Context :: Context
  done_c :: "chan option"
  children :: "ptr list option"
  err :: "error option"
  cause :: "error option"

text \<open>The fields a \<^verbatim>\<open>timerCtx\<close> adds: \<^verbatim>\<open>timer\<close>, a pointer to a runtime timer, and
  \<^verbatim>\<open>deadline\<close>.\<close>

record timerFields =
  timer :: "nat option"
  deadline :: time

text \<open>The fields an \<^verbatim>\<open>afterFuncCtx\<close> adds: whether \<^verbatim>\<open>once\<close> has run, and the function
  \<^verbatim>\<open>f\<close>.\<close>

record afterFuncFields =
  once :: bool
  fn :: nat

text \<open>A pending runtime timer of \<^verbatim>\<open>time.AfterFunc\<close>: when it fires it calls
  \<^verbatim>\<open>c.cancel(true, DeadlineExceeded, cause)\<close>.\<close>

record rtimer =
  fires_at :: time
  target :: addr
  tcause :: "error option"

text \<open>
  The state of the process.  \<open>children\<close> is a Go map used as a set; the model keeps a
  duplicate-free list, whose order stands for one possible iteration order.  \<open>peak\<close> is
  an instrumentation counter: the largest number of node mutexes held at once so far.
\<close>

record state =
  cancelCtxs :: "addr \<Rightarrow> cancelCtx option"
  timerCtxs :: "addr \<Rightarrow> timerFields option"
  afterFuncCtxs :: "addr \<Rightarrow> afterFuncFields option"
  nxt :: addr
  held :: "addr list"
  peak :: nat
  closed :: "chan set"
  now :: time
  timers :: "nat \<Rightarrow> rtimer option"
  nxt_timer :: nat
  goroutines :: nat
  waiters :: "(Context \<times> ptr) list"
  registered :: "nat \<Rightarrow> (Context \<times> ptr) option"
  nxt_reg :: nat
  started :: "nat list"

definition lock :: "addr \<Rightarrow> state \<Rightarrow> fault + state" where
  "lock a s =
     (if a \<in> set (held s) then Inl Deadlock
      else Inr (s\<lparr>held := a # held s, peak := max (peak s) (Suc (length (held s)))\<rparr>))"

definition unlock :: "addr \<Rightarrow> state \<Rightarrow> state" where
  "unlock a s = s\<lparr>held := remove1 a (held s)\<rparr>"

definition load :: "addr \<Rightarrow> state \<Rightarrow> fault + cancelCtx" where
  "load a s = (case cancelCtxs s a of None \<Rightarrow> Inl nil_deref | Some c \<Rightarrow> Inr c)"

definition store :: "addr \<Rightarrow> cancelCtx \<Rightarrow> state \<Rightarrow> state" where
  "store a c s = s\<lparr>cancelCtxs := (cancelCtxs s)(a \<mapsto> c)\<rparr>"

definition is_closed :: "state \<Rightarrow> chan \<Rightarrow> bool" where
  "is_closed s d = (d = Closedchan \<or> d \<in> closed s)"

text \<open>\<^verbatim>\<open>close(d)\<close>: closing a closed channel panics.\<close>

definition close_chan :: "chan \<Rightarrow> state \<Rightarrow> fault + state" where
  "close_chan d s =
     (if is_closed s d then Inl (Panic ''close of closed channel'')
      else Inr (s\<lparr>closed := insert d (closed s)\<rparr>))"

definition modify :: "addr \<Rightarrow> (cancelCtx \<Rightarrow> cancelCtx) \<Rightarrow> state \<Rightarrow> state" where
  "modify a g s = s\<lparr>cancelCtxs := (cancelCtxs s)(a := map_option g (cancelCtxs s a))\<rparr>"

text \<open>\<^verbatim>\<open>make(chan struct{})\<close> in the \<^verbatim>\<open>Done\<close> method of the node at \<open>a\<close>: a new, open channel.\<close>

definition make_chan :: "addr \<Rightarrow> state \<Rightarrow> chan \<times> state" where
  "make_chan a s = (MadeBy a, s\<lparr>closed := closed s - {MadeBy a}\<rparr>)"

fun forEach :: "('a \<Rightarrow> state \<Rightarrow> fault + state) \<Rightarrow> 'a list \<Rightarrow> state \<Rightarrow> fault + state" where
  "forEach g [] s = Inr s"
| "forEach g (x # xs) s = andThen (g x s) (forEach g xs)"

section \<open>The methods of the interface\<close>

text \<open>
  \<^verbatim>\<open>Deadline\<close>: only \<^verbatim>\<open>timerCtx\<close>, \<^verbatim>\<open>emptyCtx\<close> and \<^verbatim>\<open>withoutCancelCtx\<close> define it; every other
  type of the package inherits it from its embedded \<^verbatim>\<open>Context\<close>.  The fuel bounds the
  number of steps from a node of the store to its parent.
\<close>

fun Deadline :: "nat \<Rightarrow> Context \<Rightarrow> state \<Rightarrow> fault + time option" where
  "Deadline n NilContext s = Inl nil_deref"
| "Deadline n backgroundCtx s = Inr None"
| "Deadline n todoCtx s = Inr None"
| "Deadline n (valueCtx p k v) s = Deadline n p s"
| "Deadline n (withoutCancelCtx p) s = Inr None"
| "Deadline n (stopCtx p h) s = Deadline n p s"
| "Deadline n (Ptr (TimerCtxPtr a)) s =
     (case timerCtxs s a of None \<Rightarrow> Inl nil_deref | Some t \<Rightarrow> Inr (Some (deadline t)))"
| "Deadline 0 (Ptr q) s = Inl OutOfFuel"
| "Deadline (Suc n) (Ptr q) s =
     (case cancelCtxs s (addr_of q) of None \<Rightarrow> Inl nil_deref
      | Some c \<Rightarrow> Deadline n (Context c) s)"
| "Deadline n (Foreign dl ch e vf af) s = Inr dl"

text \<open>
  \<^verbatim>\<open>Value\<close> is the method \<^verbatim>\<open>c.Value(key)\<close>, \<^verbatim>\<open>value\<close> the loop \<^verbatim>\<open>value(c, key)\<close>.  A
  \<^verbatim>\<open>timerCtx\<close> and an \<^verbatim>\<open>afterFuncCtx\<close> have the promoted method of their embedded
  \<^verbatim>\<open>cancelCtx\<close>; a \<^verbatim>\<open>stopCtx\<close> has that of its embedded interface value.
\<close>

fun lookup_rank :: "Context \<Rightarrow> nat" where
  "lookup_rank (withoutCancelCtx p) = 1"
| "lookup_rank c = 0"

function (sequential) Value :: "nat \<Rightarrow> Context \<Rightarrow> any \<Rightarrow> state \<Rightarrow> fault + any"
  and "value" :: "nat \<Rightarrow> Context \<Rightarrow> any \<Rightarrow> state \<Rightarrow> fault + any" where
  "Value n NilContext key s = Inl nil_deref"
| "Value n backgroundCtx key s = Inr Nil"
| "Value n todoCtx key s = Inr Nil"
| "Value n (valueCtx p k v) key s =
     (case iface_eq k key of
        None \<Rightarrow> Inl (Panic ''runtime error: comparing uncomparable type'')
      | Some True \<Rightarrow> Inr v
      | Some False \<Rightarrow> value n p key s)"
| "Value n (withoutCancelCtx p) key s = value n (withoutCancelCtx p) key s"
| "Value n (stopCtx p h) key s = Value n p key s"
| "Value n (Ptr q) key s =
     (if key = CancelCtxKey then Inr (CancelCtxRef (addr_of q))
      else (case cancelCtxs s (addr_of q) of None \<Rightarrow> Inl nil_deref
            | Some c \<Rightarrow> (case n of 0 \<Rightarrow> Inl OutOfFuel | Suc m \<Rightarrow> value m (Context c) key s)))"
| "Value n (Foreign dl ch e vf af) key s = Inr (vf key)"
| "value n (valueCtx p k v) key s =
     (case iface_eq key k of
        None \<Rightarrow> Inl (Panic ''runtime error: comparing uncomparable type'')
      | Some True \<Rightarrow> Inr v
      | Some False \<Rightarrow> value n p key s)"
| "value n (Ptr (CancelCtxPtr a)) key s =
     (if key = CancelCtxKey then Inr (CancelCtxRef a)
      else (case cancelCtxs s a of None \<Rightarrow> Inl nil_deref
            | Some c \<Rightarrow> (case n of 0 \<Rightarrow> Inl OutOfFuel | Suc m \<Rightarrow> value m (Context c) key s)))"
| "value n (withoutCancelCtx p) key s =
     (if key = CancelCtxKey then Inr Nil else value n p key s)"
| "value n (Ptr (TimerCtxPtr a)) key s =
     (if key = CancelCtxKey then Inr (CancelCtxRef a)
      else (case cancelCtxs s a of None \<Rightarrow> Inl nil_deref
            | Some c \<Rightarrow> (case n of 0 \<Rightarrow> Inl OutOfFuel | Suc m \<Rightarrow> value m (Context c) key s)))"
| "value n backgroundCtx key s = Inr Nil"
| "value n todoCtx key s = Inr Nil"
| "value n c key s = Value n c key s"
  by pat_completeness auto

termination
  by (relation "inv_image (less_than <*lex*> less_than <*lex*> less_than)
        (\<lambda>x. case x of
           Inl (n, c, k, s) \<Rightarrow> (n, size c, lookup_rank c)
         | Inr (n, c, k, s) \<Rightarrow> (n, size c, 1 - lookup_rank c))")
     auto

text \<open>\<^verbatim>\<open>cancelCtx.Done\<close>: the channel is made on the first call, under the lock.\<close>

definition cancelCtx_Done :: "addr \<Rightarrow> state \<Rightarrow> fault + (chan option \<times> state)" where
  "cancelCtx_Done a s =
     andThen (load a s) (\<lambda>c.
       case done_c c of
         Some d \<Rightarrow> Inr (Some d, s)
       | None \<Rightarrow>
           andThen (lock a s) (\<lambda>s1.
           andThen (load a s1) (\<lambda>c1.
             case done_c c1 of
               Some d \<Rightarrow> Inr (Some d, unlock a s1)
             | None \<Rightarrow>
                 (case make_chan a s1 of (d, s2) \<Rightarrow>
                    Inr (Some d, unlock a (modify a (\<lambda>x. x\<lparr>done_c := Some d\<rparr>) s2))))))"

fun Done :: "Context \<Rightarrow> state \<Rightarrow> fault + (chan option \<times> state)" where
  "Done NilContext s = Inl nil_deref"
| "Done backgroundCtx s = Inr (None, s)"
| "Done todoCtx s = Inr (None, s)"
| "Done (valueCtx p k v) s = Done p s"
| "Done (withoutCancelCtx p) s = Inr (None, s)"
| "Done (stopCtx p h) s = Done p s"
| "Done (Ptr q) s = cancelCtx_Done (addr_of q) s"
| "Done (Foreign dl ch e vf af) s = Inr (ch, s)"

definition cancelCtx_Err :: "addr \<Rightarrow> state \<Rightarrow> fault + (error option \<times> state)" where
  "cancelCtx_Err a s =
     andThen (lock a s) (\<lambda>s1.
     andThen (load a s1) (\<lambda>c. Inr (err c, unlock a s1)))"

fun Err :: "Context \<Rightarrow> state \<Rightarrow> fault + (error option \<times> state)" where
  "Err NilContext s = Inl nil_deref"
| "Err backgroundCtx s = Inr (None, s)"
| "Err todoCtx s = Inr (None, s)"
| "Err (valueCtx p k v) s = Err p s"
| "Err (withoutCancelCtx p) s = Inr (None, s)"
| "Err (stopCtx p h) s = Err p s"
| "Err (Ptr q) s = cancelCtx_Err (addr_of q) s"
| "Err (Foreign dl ch e vf af) s =
     Inr (case ch of None \<Rightarrow> None | Some d \<Rightarrow> if is_closed s d then e else None, s)"

definition Cause :: "nat \<Rightarrow> Context \<Rightarrow> state \<Rightarrow> fault + (error option \<times> state)" where
  "Cause n c s =
     andThen (Value n c CancelCtxKey s) (\<lambda>v.
       case v of
         CancelCtxRef cc \<Rightarrow>
           andThen (lock cc s) (\<lambda>s1.
           andThen (load cc s1) (\<lambda>x. Inr (cause x, unlock cc s1)))
       | _ \<Rightarrow> Err c s)"

section \<open>Cancellation\<close>

definition parentCancelCtx :: "nat \<Rightarrow> Context \<Rightarrow> state \<Rightarrow> fault + (addr option \<times> state)" where
  "parentCancelCtx n parent s =
     andThen (Done parent s) (\<lambda>(d, s1).
       if d = Some Closedchan \<or> d = None then Inr (None, s1)
       else
         andThen (Value n parent CancelCtxKey s1) (\<lambda>v.
           case v of
             CancelCtxRef p \<Rightarrow>
               andThen (load p s1) (\<lambda>pc.
                 if done_c pc \<noteq> d then Inr (None, s1) else Inr (Some p, s1))
           | _ \<Rightarrow> Inr (None, s1)))"

text \<open>\<^verbatim>\<open>s.stop()\<close> of a \<^verbatim>\<open>stopCtx\<close> takes back the registration made with the foreign
  parent's \<^verbatim>\<open>AfterFunc\<close>.\<close>

definition removeChild :: "nat \<Rightarrow> Context \<Rightarrow> ptr \<Rightarrow> state \<Rightarrow> fault + state" where
  "removeChild n parent child s =
     (case parent of
        stopCtx p h \<Rightarrow> Inr (s\<lparr>registered := (registered s)(h := None)\<rparr>)
      | _ \<Rightarrow>
          andThen (parentCancelCtx n parent s) (\<lambda>(r, s1).
            case r of
              None \<Rightarrow> Inr s1
            | Some p \<Rightarrow>
                andThen (lock p s1) (\<lambda>s2.
                andThen (load p s2) (\<lambda>pc.
                  Inr (unlock p
                    (case children pc of
                       None \<Rightarrow> s2
                     | Some cs \<Rightarrow> modify p (\<lambda>x. x\<lparr>children := Some (removeAll child cs)\<rparr>) s2))))))"

text \<open>
  \<^verbatim>\<open>cancelCtx.cancel\<close>.  \<open>child_cancel\<close> is the dynamically dispatched \<^verbatim>\<open>child.cancel\<close>; the
  loop over the children runs between the \<^verbatim>\<open>Lock\<close> and the \<^verbatim>\<open>Unlock\<close> of the node.
\<close>

definition cancelCtx_cancel ::
  "(ptr \<Rightarrow> bool \<Rightarrow> error option \<Rightarrow> error option \<Rightarrow> state \<Rightarrow> fault + state) \<Rightarrow>
   nat \<Rightarrow> addr \<Rightarrow> bool \<Rightarrow> error option \<Rightarrow> error option \<Rightarrow> state \<Rightarrow> fault + state" where
  "cancelCtx_cancel child_cancel n c removeFromParent err0 cause0 s =
     (case err0 of
        None \<Rightarrow> Inl (Panic ''context: internal error: missing cancel error'')
      | Some e \<Rightarrow>
          (let cause1 = (case cause0 of None \<Rightarrow> e | Some x \<Rightarrow> x) in
           andThen (lock c s) (\<lambda>s1.
           andThen (load c s1) (\<lambda>c1.
             if err c1 \<noteq> None then Inr (unlock c s1)
             else
               (let s2 = modify c (\<lambda>x. x\<lparr>err := Some e\<rparr>) s1;
                    s3 = modify c (\<lambda>x. x\<lparr>cause := Some cause1\<rparr>) s2
                in
                andThen
                  (case done_c c1 of
                     None \<Rightarrow> Inr (modify c (\<lambda>x. x\<lparr>done_c := Some Closedchan\<rparr>) s3)
                   | Some d \<Rightarrow> close_chan d s3) (\<lambda>s4.
                andThen
                  (forEach (\<lambda>child. child_cancel child False (Some e) (Some cause1))
                     (case children c1 of None \<Rightarrow> [] | Some cs \<Rightarrow> cs) s4) (\<lambda>s5.
                (let s6 = unlock c (modify c (\<lambda>x. x\<lparr>children := None\<rparr>) s5) in
                 if removeFromParent then removeChild n (Context c1) (CancelCtxPtr c) s6
                 else Inr s6))))))))"

definition timerCtx_cancel ::
  "(ptr \<Rightarrow> bool \<Rightarrow> error option \<Rightarrow> error option \<Rightarrow> state \<Rightarrow> fault + state) \<Rightarrow>
   nat \<Rightarrow> addr \<Rightarrow> bool \<Rightarrow> error option \<Rightarrow> error option \<Rightarrow> state \<Rightarrow> fault + state" where
  "timerCtx_cancel child_cancel n c removeFromParent err0 cause0 s =
     andThen (cancelCtx_cancel child_cancel n c False err0 cause0 s) (\<lambda>s1.
     andThen
       (if removeFromParent
        then andThen (load c s1) (\<lambda>c1. removeChild n (Context c1) (TimerCtxPtr c) s1)
        else Inr s1) (\<lambda>s2.
     andThen (lock c s2) (\<lambda>s3.
       case timerCtxs s3 c of
         None \<Rightarrow> Inl nil_deref
       | Some t \<Rightarrow>
           Inr (unlock c
             (case timer t of
                None \<Rightarrow> s3
              | Some tid \<Rightarrow>
                  s3\<lparr>timers := (timers s3)(tid := None),
                     timerCtxs := (timerCtxs s3)(c \<mapsto> t\<lparr>timer := None\<rparr>)\<rparr>)))))"

definition afterFuncCtx_cancel ::
  "(ptr \<Rightarrow> bool \<Rightarrow> error option \<Rightarrow> error option \<Rightarrow> state \<Rightarrow> fault + state) \<Rightarrow>
   nat \<Rightarrow> addr \<Rightarrow> bool \<Rightarrow> error option \<Rightarrow> error option \<Rightarrow> state \<Rightarrow> fault + state" where
  "afterFuncCtx_cancel child_cancel n a removeFromParent err0 cause0 s =
     andThen (cancelCtx_cancel child_cancel n a False err0 cause0 s) (\<lambda>s1.
     andThen
       (if removeFromParent
        then andThen (load a s1) (\<lambda>c1. removeChild n (Context c1) (AfterFuncCtxPtr a) s1)
        else Inr s1) (\<lambda>s2.
       case afterFuncCtxs s2 a of
         None \<Rightarrow> Inl nil_deref
       | Some af \<Rightarrow>
           if once af then Inr s2
           else Inr (s2\<lparr>afterFuncCtxs := (afterFuncCtxs s2)(a \<mapsto> af\<lparr>once := True\<rparr>),
                        started := fn af # started s2\<rparr>)))"

text \<open>\<^verbatim>\<open>child.cancel(removeFromParent, err, cause)\<close> on a \<^verbatim>\<open>canceler\<close>, dispatched on the
  dynamic type.  The fuel bounds the depth of the cascade.\<close>

primrec cancel ::
  "nat \<Rightarrow> ptr \<Rightarrow> bool \<Rightarrow> error option \<Rightarrow> error option \<Rightarrow> state \<Rightarrow> fault + state" where
  "cancel 0 = (\<lambda>p removeFromParent err0 cause0 s. Inl OutOfFuel)"
| "cancel (Suc n) = (\<lambda>p removeFromParent err0 cause0 s.
     case p of
       CancelCtxPtr a \<Rightarrow> cancelCtx_cancel (cancel n) (Suc n) a removeFromParent err0 cause0 s
     | TimerCtxPtr a \<Rightarrow> timerCtx_cancel (cancel n) (Suc n) a removeFromParent err0 cause0 s
     | AfterFuncCtxPtr a \<Rightarrow>
         afterFuncCtx_cancel (cancel n) (Suc n) a removeFromParent err0 cause0 s)"

section \<open>Derivation\<close>

text \<open>
  \<^verbatim>\<open>propagateCancel\<close>; the receiver is the \<^verbatim>\<open>cancelCtx\<close> embedded in \<open>child\<close>.  Of the types
  of this model only a foreign one can have an \<^verbatim>\<open>AfterFunc\<close> method.  The goroutine of the
  last case is recorded in \<open>waiters\<close>; the counter \<^verbatim>\<open>goroutines\<close> is a natural number, its
  wrap-around at 32 bits is not modelled.
\<close>

definition propagateCancel :: "nat \<Rightarrow> Context \<Rightarrow> ptr \<Rightarrow> state \<Rightarrow> fault + state" where
  "propagateCancel n parent child s =
     (let c = addr_of child in
      andThen (load c s) (\<lambda>_.
      andThen (Done parent (modify c (\<lambda>x. x\<lparr>Context := parent\<rparr>) s)) (\<lambda>(d, s1).
        case d of
          None \<Rightarrow> Inr s1
        | Some dc \<Rightarrow>
            if is_closed s1 dc then
              andThen (Err parent s1) (\<lambda>(e, s2).
              andThen (Cause n parent s2) (\<lambda>(ca, s3).
                cancel n child False e ca s3))
            else
              andThen (parentCancelCtx n parent s1) (\<lambda>(r, s2).
                case r of
                  Some p \<Rightarrow>
                    andThen (lock p s2) (\<lambda>s3.
                    andThen (load p s3) (\<lambda>pc.
                      if err pc \<noteq> None then
                        andThen (cancel n child False (err pc) (cause pc) s3) (\<lambda>s4.
                          Inr (unlock p s4))
                      else
                        Inr (unlock p
                          (modify p (\<lambda>x. x\<lparr>children :=
                              Some (List.insert child
                                (case children x of None \<Rightarrow> [] | Some cs \<Rightarrow> cs))\<rparr>) s3))))
                | None \<Rightarrow>
                    (case parent of
                       Foreign dl ch e vf True \<Rightarrow>
                         andThen (lock c s2) (\<lambda>s3.
                           (let stop = nxt_reg s3;
                                s4 = s3\<lparr>registered := (registered s3)(stop \<mapsto> (parent, child)),
                                        nxt_reg := Suc stop\<rparr>
                            in Inr (unlock c
                                 (modify c (\<lambda>x. x\<lparr>Context := stopCtx parent stop\<rparr>) s4))))
                     | _ \<Rightarrow>
                         Inr (s2\<lparr>goroutines := Suc (goroutines s2),
                                 waiters := waiters s2 @ [(parent, child)]\<rparr>))))))"

definition new_cancelCtx :: cancelCtx where
  "new_cancelCtx =
     \<lparr>Context = NilContext, done_c = None, children = None, err = None, cause = None\<rparr>"

definition withCancel :: "nat \<Rightarrow> Context \<Rightarrow> state \<Rightarrow> fault + (addr \<times> state)" where
  "withCancel n parent s =
     (case parent of
        NilContext \<Rightarrow> Inl (Panic ''cannot create context from nil parent'')
      | _ \<Rightarrow>
          (let c = nxt s;
               s1 = s\<lparr>cancelCtxs := (cancelCtxs s)(c \<mapsto> new_cancelCtx), nxt := Suc c\<rparr>
           in andThen (propagateCancel n parent (CancelCtxPtr c) s1) (\<lambda>s2. Inr (c, s2))))"

text \<open>The closures returned as cancel functions, with the variables they capture:
  \<^verbatim>\<open>func() { c.cancel(removeFromParent, Canceled, nil) }\<close> and
  \<^verbatim>\<open>func(cause error) { c.cancel(true, Canceled, cause) }\<close>.\<close>

datatype CancelFunc = CancelFunc ptr bool

datatype CancelCauseFunc = CancelCauseFunc ptr

fun call_CancelFunc :: "nat \<Rightarrow> CancelFunc \<Rightarrow> state \<Rightarrow> fault + state" where
  "call_CancelFunc n (CancelFunc c removeFromParent) s =
     cancel n c removeFromParent (Some Canceled) None s"

fun call_CancelCauseFunc ::
  "nat \<Rightarrow> CancelCauseFunc \<Rightarrow> error option \<Rightarrow> state \<Rightarrow> fault + state" where
  "call_CancelCauseFunc n (CancelCauseFunc c) cause0 s =
     cancel n c True (Some Canceled) cause0 s"

definition WithCancel ::
  "nat \<Rightarrow> Context \<Rightarrow> state \<Rightarrow> fault + ((Context \<times> CancelFunc) \<times> state)" where
  "WithCancel n parent s =
     andThen (withCancel n parent s) (\<lambda>(c, s1).
       Inr ((Ptr (CancelCtxPtr c), CancelFunc (CancelCtxPtr c) True), s1))"

definition WithCancelCause ::
  "nat \<Rightarrow> Context \<Rightarrow> state \<Rightarrow> fault + ((Context \<times> CancelCauseFunc) \<times> state)" where
  "WithCancelCause n parent s =
     andThen (withCancel n parent s) (\<lambda>(c, s1).
       Inr ((Ptr (CancelCtxPtr c), CancelCauseFunc (CancelCtxPtr c)), s1))"

definition WithoutCancel :: "Context \<Rightarrow> fault + Context" where
  "WithoutCancel parent =
     (case parent of
        NilContext \<Rightarrow> Inl (Panic ''cannot create context from nil parent'')
      | _ \<Rightarrow> Inr (withoutCancelCtx parent))"

text \<open>\<^verbatim>\<open>time.AfterFunc(dur, f)\<close> with the callback of \<^verbatim>\<open>WithDeadlineCause\<close>: a new pending
  runtime timer.\<close>

definition time_AfterFunc :: "time \<Rightarrow> addr \<Rightarrow> error option \<Rightarrow> state \<Rightarrow> nat \<times> state" where
  "time_AfterFunc dur c cause0 s =
     (nxt_timer s,
      s\<lparr>timers := (timers s)(nxt_timer s \<mapsto>
            \<lparr>fires_at = now s + dur, target = c, tcause = cause0\<rparr>),
        nxt_timer := Suc (nxt_timer s)\<rparr>)"

definition WithDeadlineCause ::
  "nat \<Rightarrow> Context \<Rightarrow> time \<Rightarrow> error option \<Rightarrow> state \<Rightarrow>
   fault + ((Context \<times> CancelFunc) \<times> state)" where
  "WithDeadlineCause n parent d cause0 s =
     (case parent of
        NilContext \<Rightarrow> Inl (Panic ''cannot create context from nil parent'')
      | _ \<Rightarrow>
          andThen (Deadline n parent s) (\<lambda>cur.
            if (case cur of None \<Rightarrow> False | Some t \<Rightarrow> t < d) then WithCancel n parent s
            else
              (let c = nxt s;
                   s1 = s\<lparr>cancelCtxs := (cancelCtxs s)(c \<mapsto> new_cancelCtx),
                          timerCtxs := (timerCtxs s)(c \<mapsto> \<lparr>timer = None, deadline = d\<rparr>),
                          nxt := Suc c\<rparr>
               in
               andThen (propagateCancel n parent (TimerCtxPtr c) s1) (\<lambda>s2.
                 (let dur = d - now s2 in
                  if dur \<le> 0 then
                    andThen (cancel n (TimerCtxPtr c) True (Some DeadlineExceeded) cause0 s2)
                      (\<lambda>s3. Inr ((Ptr (TimerCtxPtr c), CancelFunc (TimerCtxPtr c) False), s3))
                  else
                    andThen (lock c s2) (\<lambda>s3.
                    andThen (load c s3) (\<lambda>c1.
                      (let s4 =
                         (if err c1 = None then
                            (case time_AfterFunc dur c cause0 s3 of (tm, s') \<Rightarrow>
                               s'\<lparr>timerCtxs := (timerCtxs s')(c \<mapsto>
                                     \<lparr>timer = Some tm, deadline = d\<rparr>)\<rparr>)
                          else s3)
                       in Inr ((Ptr (TimerCtxPtr c), CancelFunc (TimerCtxPtr c) True),
                               unlock c s4)))))))))"

definition WithDeadline ::
  "nat \<Rightarrow> Context \<Rightarrow> time \<Rightarrow> state \<Rightarrow> fault + ((Context \<times> CancelFunc) \<times> state)" where
  "WithDeadline n parent d s = WithDeadlineCause n parent d None s"

definition WithTimeout ::
  "nat \<Rightarrow> Context \<Rightarrow> time \<Rightarrow> state \<Rightarrow> fault + ((Context \<times> CancelFunc) \<times> state)" where
  "WithTimeout n parent timeout s = WithDeadline n parent (now s + timeout) s"

definition WithTimeoutCause ::
  "nat \<Rightarrow> Context \<Rightarrow> time \<Rightarrow> error option \<Rightarrow> state \<Rightarrow>
   fault + ((Context \<times> CancelFunc) \<times> state)" where
  "WithTimeoutCause n parent timeout cause0 s =
     WithDeadlineCause n parent (now s + timeout) cause0 s"

definition WithValue :: "Context \<Rightarrow> any \<Rightarrow> any \<Rightarrow> fault + Context" where
  "WithValue parent key val =
     (case parent of
        NilContext \<Rightarrow> Inl (Panic ''cannot create context from nil parent'')
      | _ \<Rightarrow>
          (case key of
             Nil \<Rightarrow> Inl (Panic ''nil key'')
           | _ \<Rightarrow>
               if \<not> Comparable key then Inl (Panic ''key is not comparable'')
               else Inr (valueCtx parent key val)))"

text \<open>The runtime fires a pending timer whose time has come: it runs the callback
  \<^verbatim>\<open>c.cancel(true, DeadlineExceeded, cause)\<close>.  A timer that is not pending never fires.\<close>

definition timer_fire :: "nat \<Rightarrow> nat \<Rightarrow> state \<Rightarrow> fault + state" where
  "timer_fire n tm s =
     (case timers s tm of
        None \<Rightarrow> Inr s
      | Some t \<Rightarrow>
          if now s < fires_at t then Inr s
          else cancel n (TimerCtxPtr (target t)) True (Some DeadlineExceeded) (tcause t)
                 (s\<lparr>timers := (timers s)(tm := None)\<rparr>))"


text \<open>The state of a process that has derived no scope yet.\<close>

definition init :: state where
  "init = \<lparr>cancelCtxs = Map.empty, timerCtxs = Map.empty, afterFuncCtxs = Map.empty,
     nxt = 0, held = [], peak = 0, closed = {}, now = 0, timers = Map.empty, nxt_timer = 0,
     goroutines = 0, waiters = [], registered = Map.empty, nxt_reg = 0, started = []\<rparr>"

section \<open>Well-formed stores\<close>

text \<open>The registered children of the node at \<open>a\<close>, and whether this node is allocated and
  not yet canceled.\<close>

definition kids :: "state \<Rightarrow> addr \<Rightarrow> ptr list" where
  "kids s a =
     (case cancelCtxs s a of
        None \<Rightarrow> []
      | Some x \<Rightarrow> (case children x of None \<Rightarrow> [] | Some cs \<Rightarrow> cs))"

definition active :: "state \<Rightarrow> addr \<Rightarrow> bool" where
  "active s a = (case cancelCtxs s a of None \<Rightarrow> False | Some x \<Rightarrow> err x = None)"

text \<open>A pointer refers to an allocated object of its dynamic type.\<close>

fun valid_ptr :: "state \<Rightarrow> ptr \<Rightarrow> bool" where
  "valid_ptr s (CancelCtxPtr a) = (cancelCtxs s a \<noteq> None)"
| "valid_ptr s (TimerCtxPtr a) = (cancelCtxs s a \<noteq> None \<and> timerCtxs s a \<noteq> None)"
| "valid_ptr s (AfterFuncCtxPtr a) = (cancelCtxs s a \<noteq> None \<and> afterFuncCtxs s a \<noteq> None)"

text \<open>The timer of a \<^verbatim>\<open>timerCtx\<close> is stopped and cleared: its field \<^verbatim>\<open>timer\<close> is \<^verbatim>\<open>nil\<close> and
  no pending runtime timer has the node as target.\<close>

definition timer_cleared :: "state \<Rightarrow> addr \<Rightarrow> bool" where
  "timer_cleared s a =
     ((case timerCtxs s a of None \<Rightarrow> True | Some t \<Rightarrow> timer t = None) \<and>
      (\<forall>tm t. timers s tm = Some t \<longrightarrow> target t \<noteq> a))"

fun stopped :: "state \<Rightarrow> ptr \<Rightarrow> bool" where
  "stopped s (TimerCtxPtr a) = timer_cleared s a"
| "stopped s p = True"

text \<open>
  The shape every store built by the package has, also in the middle of a cascade:
  objects live below the allocation pointer; a registered child is a valid pointer to a
  younger object; a node that is not canceled has no channel or its own open channel; a
  canceled node has a closed channel; every pending runtime timer is the one its target
  node points to.
\<close>

definition heap_ok :: "state \<Rightarrow> bool" where
  "heap_ok s \<longleftrightarrow>
     (\<forall>a. cancelCtxs s a \<noteq> None \<longrightarrow> a < nxt s) \<and>
     (\<forall>a. \<forall>k \<in> set (kids s a). a < addr_of k \<and> valid_ptr s k) \<and>
     (\<forall>a x. cancelCtxs s a = Some x \<longrightarrow> err x = None \<longrightarrow>
        (done_c x = None \<or> done_c x = Some (MadeBy a)) \<and> MadeBy a \<notin> closed s) \<and>
     (\<forall>a x. cancelCtxs s a = Some x \<longrightarrow> err x \<noteq> None \<longrightarrow>
        done_c x = Some Closedchan \<or> (done_c x = Some (MadeBy a) \<and> MadeBy a \<in> closed s)) \<and>
     (\<forall>tm t. timers s tm = Some t \<longrightarrow>
        (\<exists>t'. timerCtxs s (target t) = Some t' \<and> timer t' = Some tm))"

text \<open>What a cascade with error \<open>e\<close> and cause \<open>c\<close> does to a node that was not canceled,
  and the steps a cascade can make on a node, on the fields of a \<^verbatim>\<open>timerCtx\<close> and on
  those of an \<^verbatim>\<open>afterFuncCtx\<close>.\<close>

definition cancelled_node :: "error \<Rightarrow> error \<Rightarrow> cancelCtx \<Rightarrow> cancelCtx" where
  "cancelled_node e c x =
     x\<lparr>done_c := Some (case done_c x of None \<Rightarrow> Closedchan | Some d \<Rightarrow> d),
       children := None, err := Some e, cause := Some c\<rparr>"

definition node_step ::
  "error \<Rightarrow> error \<Rightarrow> cancelCtx option \<Rightarrow> cancelCtx option \<Rightarrow> bool" where
  "node_step e c old new \<longleftrightarrow>
     new = old \<or> (\<exists>x. old = Some x \<and> err x = None \<and> new = Some (cancelled_node e c x))"

definition timer_step :: "timerFields option \<Rightarrow> timerFields option \<Rightarrow> bool" where
  "timer_step old new \<longleftrightarrow> new = old \<or> (\<exists>t. old = Some t \<and> new = Some (t\<lparr>timer := None\<rparr>))"

definition once_step :: "afterFuncFields option \<Rightarrow> afterFuncFields option \<Rightarrow> bool" where
  "once_step old new \<longleftrightarrow> new = old \<or> (\<exists>f. old = Some f \<and> new = Some (f\<lparr>once := True\<rparr>))"

text \<open>The parts of the state no cascade touches; the lock counter only grows.\<close>

definition same_frame :: "state \<Rightarrow> state \<Rightarrow> bool" where
  "same_frame s s' \<longleftrightarrow>
     nxt s' = nxt s \<and> held s' = held s \<and> peak s \<le> peak s' \<and> now s' = now s \<and>
     goroutines s' = goroutines s \<and> waiters s' = waiters s \<and>
     registered s' = registered s \<and> nxt_reg s' = nxt_reg s \<and> nxt_timer s' = nxt_timer s \<and>
     closed s \<subseteq> closed s'"

text \<open>All registered children of the nodes that changed from \<open>s\<close> to \<open>s'\<close> are canceled in
  \<open>s'\<close>, their timers cleared.\<close>

definition children_done :: "state \<Rightarrow> state \<Rightarrow> bool" where
  "children_done s s' \<longleftrightarrow>
     (\<forall>a. cancelCtxs s' a \<noteq> cancelCtxs s a \<longrightarrow>
          (\<forall>k \<in> set (kids s a). \<not> active s' (addr_of k) \<and> stopped s' k))"

text \<open>
  The relation between the stores before and after a cascade with error \<open>e\<close> and cause
  \<open>c\<close>: a node is left as it was or, if it was not canceled, becomes its
  \<open>cancelled_node\<close>; all children of a node that changed are canceled, and their timers
  are cleared; timers are only stopped, \<^verbatim>\<open>once\<close> flags only set; no lock stays held.
\<close>

definition casc :: "error \<Rightarrow> error \<Rightarrow> state \<Rightarrow> state \<Rightarrow> bool" where
  "casc e c s s' \<longleftrightarrow>
     same_frame s s' \<and>
     (\<forall>a. node_step e c (cancelCtxs s a) (cancelCtxs s' a)) \<and>
     children_done s s' \<and>
     (\<forall>a. timer_step (timerCtxs s a) (timerCtxs s' a)) \<and>
     timers s' \<subseteq>\<^sub>m timers s \<and>
     (\<forall>a. once_step (afterFuncCtxs s a) (afterFuncCtxs s' a))"

text \<open>The state of \<^verbatim>\<open>cancelCtx.cancel\<close> on the node \<open>x\<close> at \<open>a\<close> when its loop over the
  children starts, what it does after the loop, and the cause it records.\<close>

definition begin_cancel :: "addr \<Rightarrow> cancelCtx \<Rightarrow> error \<Rightarrow> error \<Rightarrow> state \<Rightarrow> state" where
  "begin_cancel a x e c s =
     (let s3 = modify a (\<lambda>x. x\<lparr>cause := Some c\<rparr>) (modify a (\<lambda>x. x\<lparr>err := Some e\<rparr>)
                 (s\<lparr>held := a # held s, peak := max (peak s) (Suc (length (held s)))\<rparr>))
      in case done_c x of
           None \<Rightarrow> modify a (\<lambda>x. x\<lparr>done_c := Some Closedchan\<rparr>) s3
         | Some d \<Rightarrow> s3\<lparr>closed := insert d (closed s3)\<rparr>)"

definition finish_cancel :: "addr \<Rightarrow> state \<Rightarrow> state" where
  "finish_cancel a s = unlock a (modify a (\<lambda>x. x\<lparr>children := None\<rparr>) s)"

definition eff_cause :: "error \<Rightarrow> error option \<Rightarrow> error" where
  "eff_cause e cause0 = (case cause0 of None \<Rightarrow> e | Some x \<Rightarrow> x)"

text \<open>The last part of \<^verbatim>\<open>timerCtx.cancel\<close> (the timer is stopped and the field cleared,
  under the lock) and of \<^verbatim>\<open>afterFuncCtx.cancel\<close> (\<^verbatim>\<open>a.once.Do\<close>), as functions of their
  own.\<close>

definition stop_timer :: "addr \<Rightarrow> state \<Rightarrow> fault + state" where
  "stop_timer c s2 =
     andThen (lock c s2) (\<lambda>s3.
       case timerCtxs s3 c of
         None \<Rightarrow> Inl nil_deref
       | Some t \<Rightarrow>
           Inr (unlock c
             (case timer t of
                None \<Rightarrow> s3
              | Some tid \<Rightarrow>
                  s3\<lparr>timers := (timers s3)(tid := None),
                     timerCtxs := (timerCtxs s3)(c \<mapsto> t\<lparr>timer := None\<rparr>)\<rparr>)))"

definition run_once :: "addr \<Rightarrow> state \<Rightarrow> fault + state" where
  "run_once a s2 =
     (case afterFuncCtxs s2 a of
        None \<Rightarrow> Inl nil_deref
      | Some af \<Rightarrow>
          if once af then Inr s2
          else Inr (s2\<lparr>afterFuncCtxs := (afterFuncCtxs s2)(a \<mapsto> af\<lparr>once := True\<rparr>),
                       started := fn af # started s2\<rparr>))"

section \<open>Notions used in the statements\<close>

text \<open>The lookup of the private key \<^verbatim>\<open>&cancelCtxKey\<close> depends neither on the store nor on the
  fuel: it stops at the innermost cancelable node.\<close>

fun key_lookup :: "Context \<Rightarrow> fault + any" where
  "key_lookup NilContext = Inl nil_deref"
| "key_lookup backgroundCtx = Inr Nil"
| "key_lookup todoCtx = Inr Nil"
| "key_lookup (valueCtx p k v) = (if k = CancelCtxKey then Inr v else key_lookup p)"
| "key_lookup (withoutCancelCtx p) = Inr Nil"
| "key_lookup (stopCtx p h) = key_lookup p"
| "key_lookup (Ptr q) = Inr (CancelCtxRef (addr_of q))"
| "key_lookup (Foreign dl ch e vf af) = Inr (vf CancelCtxKey)"

text \<open>A \<^verbatim>\<open>Context\<close> value that can be a parent: never \<^verbatim>\<open>nil\<close> on the way to the innermost
  cancelable node, whose pointer is valid; no \<^verbatim>\<open>valueCtx\<close> stores the key \<^verbatim>\<open>&cancelCtxKey\<close>,
  which is private to the package; a foreign \<^verbatim>\<open>Value\<close> method that answers the private key
  with a \<^verbatim>\<open>*cancelCtx\<close> answers with an allocated one.\<close>

fun ctx_ok :: "state \<Rightarrow> Context \<Rightarrow> bool" where
  "ctx_ok s NilContext = False"
| "ctx_ok s backgroundCtx = True"
| "ctx_ok s todoCtx = True"
| "ctx_ok s (valueCtx p k v) = (k \<noteq> CancelCtxKey \<and> ctx_ok s p)"
| "ctx_ok s (withoutCancelCtx p) = ctx_ok s p"
| "ctx_ok s (stopCtx p h) = ctx_ok s p"
| "ctx_ok s (Ptr q) = valid_ptr s q"
| "ctx_ok s (Foreign dl ch e vf af) =
     (case vf CancelCtxKey of CancelCtxRef p \<Rightarrow> cancelCtxs s p \<noteq> None | _ \<Rightarrow> True)"

text \<open>A store between two operations: well-formed, no lock held, every node with a parent
  it can be detached from.\<close>

definition store_ok :: "state \<Rightarrow> bool" where
  "store_ok s \<longleftrightarrow>
     heap_ok s \<and> held s = [] \<and>
     (\<forall>a x. cancelCtxs s a = Some x \<longrightarrow> ctx_ok s (Context x))"

text \<open>The invariant of the children sets (section 3 of the specification): a canceled
  node has no registered child, and a registered child is not canceled.\<close>

definition tree_ok :: "state \<Rightarrow> bool" where
  "tree_ok s \<longleftrightarrow>
     store_ok s \<and>
     (\<forall>a x. cancelCtxs s a = Some x \<longrightarrow> err x \<noteq> None \<longrightarrow>
        children x = None \<and> cause x \<noteq> None) \<and>
     (\<forall>a. \<forall>k \<in> set (kids s a). active s (addr_of k))"

text \<open>The descendants of the node at \<open>a\<close>: the cancelers registered in its children set,
  transitively.\<close>

inductive desc :: "state \<Rightarrow> addr \<Rightarrow> ptr \<Rightarrow> bool" for s :: state and a :: addr where
  child: "k \<in> set (kids s a) \<Longrightarrow> desc s a k"
| grandchild: "desc s a k \<Longrightarrow> k' \<in> set (kids s (addr_of k)) \<Longrightarrow> desc s a k'"

text \<open>The node at \<open>a\<close> is canceled with terminal error \<open>e\<close> and cause \<open>c\<close>: its done channel
  is closed and its children set is \<^verbatim>\<open>nil\<close>.\<close>

definition settled :: "state \<Rightarrow> addr \<Rightarrow> error \<Rightarrow> error \<Rightarrow> bool" where
  "settled s a e c \<longleftrightarrow>
     a < nxt s \<and>
     (case cancelCtxs s a of
        None \<Rightarrow> False
      | Some x \<Rightarrow>
          err x = Some e \<and> cause x = Some c \<and> children x = None \<and>
          (done_c x = Some Closedchan \<or> (done_c x = Some (MadeBy a) \<and> MadeBy a \<in> closed s)))"

text \<open>The state after the slow path of \<^verbatim>\<open>cancelCtx.Done\<close> on the node at \<open>a\<close>.\<close>

definition made_done :: "addr \<Rightarrow> state \<Rightarrow> state" where
  "made_done a s =
     (case lock a s of
        Inl _ \<Rightarrow> s
      | Inr s1 \<Rightarrow>
          (case make_chan a s1 of (d, s2) \<Rightarrow>
             unlock a (modify a (\<lambda>x. x\<lparr>done_c := Some d\<rparr>) s2)))"

text \<open>
  A step that cancels nothing: the errors and causes stay; a done channel may be made;
  children may be removed; timers may be stopped, \<^verbatim>\<open>once\<close> flags set and registrations
  taken back.
\<close>

definition kidset :: "cancelCtx \<Rightarrow> ptr set" where
  "kidset x = (case children x of None \<Rightarrow> {} | Some cs \<Rightarrow> set cs)"

definition node_quiet :: "addr \<Rightarrow> cancelCtx option \<Rightarrow> cancelCtx option \<Rightarrow> bool" where
  "node_quiet a old new \<longleftrightarrow>
     (old = None \<and> new = None) \<or>
     (\<exists>x y. old = Some x \<and> new = Some y \<and>
        err y = err x \<and> cause y = cause x \<and> Context y = Context x \<and>
        (done_c y = done_c x \<or> (done_c x = None \<and> done_c y = Some (MadeBy a))) \<and>
        kidset y \<subseteq> kidset x \<and> (children x = None \<longrightarrow> children y = None))"

definition quiet :: "state \<Rightarrow> state \<Rightarrow> bool" where
  "quiet s s' \<longleftrightarrow>
     nxt s' = nxt s \<and> held s' = held s \<and> peak s \<le> peak s' \<and> now s' = now s \<and>
     closed s' = closed s \<and> goroutines s' = goroutines s \<and> waiters s' = waiters s \<and>
     nxt_reg s' = nxt_reg s \<and> nxt_timer s' = nxt_timer s \<and>
     registered s' \<subseteq>\<^sub>m registered s \<and>
     (\<forall>a. node_quiet a (cancelCtxs s a) (cancelCtxs s' a)) \<and>
     (\<forall>a. timer_step (timerCtxs s a) (timerCtxs s' a)) \<and>
     timers s' \<subseteq>\<^sub>m timers s \<and>
     (\<forall>a. once_step (afterFuncCtxs s a) (afterFuncCtxs s' a))"

text \<open>What a call of \<^verbatim>\<open>Done\<close> can do to the store: nothing, or make the channel of one
  node.\<close>

definition lazy :: "state \<Rightarrow> state \<Rightarrow> bool" where
  "lazy s s' \<longleftrightarrow>
     s' = s \<or> (\<exists>a x. cancelCtxs s a = Some x \<and> done_c x = None \<and> s' = made_done a s)"

text \<open>The locked part of \<^verbatim>\<open>removeChild\<close>: the child is deleted from the children of the
  node at \<open>p\<close>.\<close>

definition drop_child :: "addr \<Rightarrow> ptr \<Rightarrow> state \<Rightarrow> fault + state" where
  "drop_child p child s1 =
     andThen (lock p s1) (\<lambda>s2.
     andThen (load p s2) (\<lambda>pc.
       Inr (unlock p
         (case children pc of
            None \<Rightarrow> s2
          | Some cs \<Rightarrow> modify p (\<lambda>x. x\<lparr>children := Some (removeAll child cs)\<rparr>) s2))))"

section \<open>The other entry points and the steps of the environment\<close>

text \<open>\<^verbatim>\<open>AfterFunc\<close>; the returned \<^verbatim>\<open>stop\<close> closure captures the new node, and \<open>call_stop\<close> is
  a call of it.\<close>

definition AfterFunc :: "nat \<Rightarrow> Context \<Rightarrow> nat \<Rightarrow> state \<Rightarrow> fault + (addr \<times> state)" where
  "AfterFunc n ctx f s =
     (let a = nxt s;
          s1 = s\<lparr>cancelCtxs := (cancelCtxs s)(a \<mapsto> new_cancelCtx),
                 afterFuncCtxs := (afterFuncCtxs s)(a \<mapsto> \<lparr>once = False, fn = f\<rparr>),
                 nxt := Suc a\<rparr>
      in andThen (propagateCancel n ctx (AfterFuncCtxPtr a) s1) (\<lambda>s2. Inr (a, s2)))"

definition call_stop :: "nat \<Rightarrow> addr \<Rightarrow> state \<Rightarrow> fault + (bool \<times> state)" where
  "call_stop n a s =
     (case afterFuncCtxs s a of
        None \<Rightarrow> Inl nil_deref
      | Some af \<Rightarrow>
          if once af then Inr (False, s)
          else
            andThen
              (cancel n (AfterFuncCtxPtr a) True (Some Canceled) None
                 (s\<lparr>afterFuncCtxs := (afterFuncCtxs s)(a \<mapsto> af\<lparr>once := True\<rparr>)\<rparr>))
              (\<lambda>s'. Inr (True, s')))"

text \<open>A foreign parent runs the callback that \<^verbatim>\<open>propagateCancel\<close> registered with its
  \<^verbatim>\<open>AfterFunc\<close> method: \<^verbatim>\<open>child.cancel(false, parent.Err(), Cause(parent))\<close>.\<close>

definition run_registered :: "nat \<Rightarrow> nat \<Rightarrow> state \<Rightarrow> fault + state" where
  "run_registered n h s =
     (case registered s h of
        None \<Rightarrow> Inr s
      | Some (parent, child) \<Rightarrow>
          andThen (Err parent (s\<lparr>registered := (registered s)(h := None)\<rparr>)) (\<lambda>(e, s1).
          andThen (Cause n parent s1) (\<lambda>(ca, s2).
            cancel n child False e ca s2)))"

text \<open>
  The goroutine of the last case of \<^verbatim>\<open>propagateCancel\<close>, scheduled: it evaluates both
  channels; when the parent's is closed it cancels the child and ends, when only the
  child's is closed it ends, otherwise it stays blocked.
\<close>

definition run_waiter :: "nat \<Rightarrow> nat \<Rightarrow> state \<Rightarrow> fault + state" where
  "run_waiter n i s =
     (if length (waiters s) \<le> i then Inr s
      else
        (case waiters s ! i of (parent, child) \<Rightarrow>
           andThen (Done parent s) (\<lambda>(pd, s1).
           andThen (Done (Ptr child) s1) (\<lambda>(cd, s2).
             (let s3 = s2\<lparr>waiters := take i (waiters s2) @ drop (Suc i) (waiters s2)\<rparr> in
              if (case pd of None \<Rightarrow> False | Some d \<Rightarrow> is_closed s2 d) then
                andThen (Err parent s3) (\<lambda>(e, s4).
                andThen (Cause n parent s4) (\<lambda>(ca, s5).
                  cancel n child False e ca s5))
              else if (case cd of None \<Rightarrow> False | Some d \<Rightarrow> is_closed s2 d) then Inr s3
              else Inr s2)))))"

text \<open>Everything that can happen to a store: the calls of the package's entry points and
  the steps of its environment (a timer fires, a callback or a goroutine runs, the clock
  advances).  The derivations that touch no store (\<^verbatim>\<open>WithValue\<close>, \<^verbatim>\<open>WithoutCancel\<close>) and the
  pure reads are left out; \<^verbatim>\<open>WithCancelCause\<close> changes the store as \<^verbatim>\<open>WithCancel\<close> does.\<close>

datatype op =
    CallCancel ptr bool "error option" "error option"
  | CallWithCancel Context
  | CallWithDeadlineCause Context time "error option"
  | CallAfterFunc Context nat
  | CallStop addr
  | CallDone Context
  | CallErr Context
  | CallCause Context
  | TimerFires nat
  | CallbackRuns nat
  | WaiterRuns nat
  | ClockAdvances nat

fun exec :: "nat \<Rightarrow> op \<Rightarrow> state \<Rightarrow> fault + state" where
  "exec n (CallCancel p removeFromParent err0 cause0) s = cancel n p removeFromParent err0 cause0 s"
| "exec n (CallWithCancel parent) s = andThen (WithCancel n parent s) (\<lambda>(r, s'). Inr s')"
| "exec n (CallWithDeadlineCause parent d cause0) s =
     andThen (WithDeadlineCause n parent d cause0 s) (\<lambda>(r, s'). Inr s')"
| "exec n (CallAfterFunc ctx f) s = andThen (AfterFunc n ctx f s) (\<lambda>(r, s'). Inr s')"
| "exec n (CallStop a) s = andThen (call_stop n a s) (\<lambda>(r, s'). Inr s')"
| "exec n (CallDone c) s = andThen (Done c s) (\<lambda>(r, s'). Inr s')"
| "exec n (CallErr c) s = andThen (Err c s) (\<lambda>(r, s'). Inr s')"
| "exec n (CallCause c) s = andThen (Cause n c s) (\<lambda>(r, s'). Inr s')"
| "exec n (TimerFires tm) s = timer_fire n tm s"
| "exec n (CallbackRuns h) s = run_registered n h s"
| "exec n (WaiterRuns i) s = run_waiter n i s"
| "exec n (ClockAdvances d) s = Inr (s\<lparr>now := now s + int d\<rparr>)"

definition run :: "nat \<Rightarrow> op list \<Rightarrow> state \<Rightarrow> fault + state" where
  "run n ops s = forEach (exec n) ops s"

text \<open>Whatever is settled in \<open>s\<close> is settled in \<open>s'\<close>.\<close>

definition keeps :: "state \<Rightarrow> state \<Rightarrow> bool" where
  "keeps s s' \<longleftrightarrow> (\<forall>a e c. settled s a e c \<longrightarrow> settled s' a e c)"

section \<open>The branches of \<open>propagateCancel\<close>\<close>

text \<open>The four ways in which \<^verbatim>\<open>propagateCancel\<close> ties the child to a parent that can be
  canceled, as functions of their own, in the order of the source: the parent is already
  canceled; the parent is, or wraps, a \<^verbatim>\<open>cancelCtx\<close> of the package; the parent has an
  \<^verbatim>\<open>AfterFunc\<close> method; a goroutine is started.\<close>

definition cancel_now :: "nat \<Rightarrow> Context \<Rightarrow> ptr \<Rightarrow> state \<Rightarrow> fault + state" where
  "cancel_now n parent child s1 =
     andThen (Err parent s1) (\<lambda>(e, s2).
     andThen (Cause n parent s2) (\<lambda>(ca, s3).
       cancel n child False e ca s3))"

definition join_children :: "nat \<Rightarrow> addr \<Rightarrow> ptr \<Rightarrow> state \<Rightarrow> fault + state" where
  "join_children n p child s2 =
     andThen (lock p s2) (\<lambda>s3.
     andThen (load p s3) (\<lambda>pc.
       if err pc \<noteq> None then
         andThen (cancel n child False (err pc) (cause pc) s3) (\<lambda>s4. Inr (unlock p s4))
       else
         Inr (unlock p
           (modify p (\<lambda>x. x\<lparr>children :=
               Some (List.insert child (case children x of None \<Rightarrow> [] | Some cs \<Rightarrow> cs))\<rparr>) s3))))"

definition register_afterFunc :: "Context \<Rightarrow> ptr \<Rightarrow> state \<Rightarrow> fault + state" where
  "register_afterFunc parent child s2 =
     andThen (lock (addr_of child) s2) (\<lambda>s3.
       (let stop = nxt_reg s3;
            s4 = s3\<lparr>registered := (registered s3)(stop \<mapsto> (parent, child)),
                    nxt_reg := Suc stop\<rparr>
        in Inr (unlock (addr_of child)
             (modify (addr_of child) (\<lambda>x. x\<lparr>Context := stopCtx parent stop\<rparr>) s4))))"

definition start_goroutine :: "Context \<Rightarrow> ptr \<Rightarrow> state \<Rightarrow> state" where
  "start_goroutine parent child s2 =
     s2\<lparr>goroutines := Suc (goroutines s2), waiters := waiters s2 @ [(parent, child)]\<rparr>"

text \<open>The type assertion \<^verbatim>\<open>parent.(afterFuncer)\<close>.\<close>

fun is_afterFuncer :: "Context \<Rightarrow> bool" where
  "is_afterFuncer (Foreign dl ch e vf af) = af"
| "is_afterFuncer c = False"

section \<open>The parts of the derivations\<close>

text \<open>The allocations \<^verbatim>\<open>&cancelCtx{}\<close> and \<^verbatim>\<open>&timerCtx{deadline: d}\<close>, the test of
  \<^verbatim>\<open>WithDeadlineCause\<close> on the deadline of the parent, and its last part, which arms the
  timer under the lock unless the node is canceled already.\<close>

definition new_node :: "state \<Rightarrow> state" where
  "new_node s = s\<lparr>cancelCtxs := (cancelCtxs s)(nxt s \<mapsto> new_cancelCtx), nxt := Suc (nxt s)\<rparr>"

definition new_timerCtx :: "time \<Rightarrow> state \<Rightarrow> state" where
  "new_timerCtx d s =
     s\<lparr>cancelCtxs := (cancelCtxs s)(nxt s \<mapsto> new_cancelCtx),
       timerCtxs := (timerCtxs s)(nxt s \<mapsto> \<lparr>timer = None, deadline = d\<rparr>),
       nxt := Suc (nxt s)\<rparr>"

definition earlier :: "time option \<Rightarrow> time \<Rightarrow> bool" where
  "earlier cur d = (case cur of None \<Rightarrow> False | Some t \<Rightarrow> t < d)"

definition arm_timer :: "addr \<Rightarrow> time \<Rightarrow> error option \<Rightarrow> state \<Rightarrow> fault + state" where
  "arm_timer c d cause0 s2 =
     andThen (lock c s2) (\<lambda>s3.
     andThen (load c s3) (\<lambda>c1.
       Inr (unlock c
         (if err c1 = None then
            (case time_AfterFunc (d - now s2) c cause0 s3 of (tm, s') \<Rightarrow>
               s'\<lparr>timerCtxs := (timerCtxs s')(c \<mapsto> \<lparr>timer = Some tm, deadline = d\<rparr>)\<rparr>)
          else s3))))"

section \<open>A family of three scopes\<close>

text \<open>
  The store built at time 0 by \<^verbatim>\<open>c0, _ := WithCancel(Background())\<close>,
  \<^verbatim>\<open>c1, _ := WithCancel(c0)\<close> and \<^verbatim>\<open>c2, _ := WithDeadline(c1, 10)\<close>: the node at 0 has the
  child at 1, which has the deadline node at 2 as its child, with a pending timer.
\<close>

definition family_calls :: "fault + state" where
  "family_calls =
     andThen (WithCancel 3 backgroundCtx init) (\<lambda>((c0, f0), s0).
     andThen (WithCancel 3 c0 s0) (\<lambda>((c1, f1), s1).
     andThen (WithDeadline 3 c1 10 s1) (\<lambda>((c2, f2), s2). Inr s2)))"

definition family :: state where
  "family =
     \<lparr>cancelCtxs =
        [0 \<mapsto> \<lparr>Context = backgroundCtx, done_c = Some (MadeBy 0),
                children = Some [CancelCtxPtr 1], err = None, cause = None\<rparr>,
         2 \<mapsto> \<lparr>Context = Ptr (CancelCtxPtr 1), done_c = None,
                children = None, err = None, cause = None\<rparr>,
         1 \<mapsto> \<lparr>Context = Ptr (CancelCtxPtr 0), done_c = Some (MadeBy 1),
                children = Some [TimerCtxPtr 2], err = None, cause = None\<rparr>],
      timerCtxs = [2 \<mapsto> \<lparr>timer = Some 0, deadline = 10\<rparr>],
      afterFuncCtxs = Map.empty, nxt = 3, held = [], peak = 1, closed = {}, now = 0,
      timers = [0 \<mapsto> \<lparr>fires_at = 10, target = 2, tcause = None\<rparr>],
      nxt_timer = 1, goroutines = 0, waiters = [], registered = Map.empty, nxt_reg = 0,
      started = []\<rparr>"

section \<open>Basic facts\<close>

lemma andThen_Inl [simp]: "andThen (Inl x) k = Inl x"
  by (simp add: andThen_def)

lemma andThen_Inr [simp]: "andThen (Inr v) k = k v"
  by (simp add: andThen_def)

section \<open>The cascade\<close>

lemma cancelCtx_cancel_nil:
  "cancelCtx_cancel rec n a rfp None cause0 s =
     Inl (Panic ''context: internal error: missing cancel error'')"
  by (simp add: cancelCtx_cancel_def)

lemma cancelCtx_cancel_done:
  assumes "cancelCtxs s a = Some x" "err x \<noteq> None" "a \<notin> set (held s)"
  shows "cancelCtx_cancel rec n a False (Some e) cause0 s =
           Inr (s\<lparr>peak := max (peak s) (Suc (length (held s)))\<rparr>)"
  using assms by (simp add: cancelCtx_cancel_def lock_def load_def unlock_def)

lemma cancelCtx_cancel_active:
  assumes "cancelCtxs s a = Some x" "err x = None" "a \<notin> set (held s)"
    and "\<And>d. done_c x = Some d \<Longrightarrow> \<not> is_closed s d"
  shows "cancelCtx_cancel rec n a rfp (Some e) cause0 s =
           andThen (forEach (\<lambda>child. rec child False (Some e) (Some (eff_cause e cause0)))
                      (kids s a) (begin_cancel a x e (eff_cause e cause0) s))
             (\<lambda>s5. if rfp then removeChild n (Context x) (CancelCtxPtr a) (finish_cancel a s5)
                    else Inr (finish_cancel a s5))"
proof (cases "done_c x")
  case None
  then show ?thesis using assms
    by (cases rfp) (simp_all add: cancelCtx_cancel_def lock_def load_def begin_cancel_def
        finish_cancel_def eff_cause_def kids_def Let_def)
next
  case (Some d)
  then show ?thesis using assms
    by (cases rfp) (simp_all add: cancelCtx_cancel_def lock_def load_def begin_cancel_def
        finish_cancel_def eff_cause_def kids_def Let_def close_chan_def is_closed_def modify_def)
qed

lemma node_step_refl [simp]: "node_step e c x x"
  by (simp add: node_step_def)

lemma timer_step_refl [simp]: "timer_step x x"
  by (simp add: timer_step_def)

lemma once_step_refl [simp]: "once_step x x"
  by (simp add: once_step_def)

lemma node_step_None: "node_step e c x y \<Longrightarrow> (y = None) = (x = None)"
  by (auto simp: node_step_def)

lemma timer_step_None: "timer_step x y \<Longrightarrow> (y = None) = (x = None)"
  by (auto simp: timer_step_def)

lemma once_step_None: "once_step x y \<Longrightarrow> (y = None) = (x = None)"
  by (auto simp: once_step_def)

lemma node_step_trans: "node_step e c x y \<Longrightarrow> node_step e c y z \<Longrightarrow> node_step e c x z"
  by (auto simp: node_step_def cancelled_node_def)

lemma timer_step_trans: "timer_step x y \<Longrightarrow> timer_step y z \<Longrightarrow> timer_step x z"
  by (auto simp: timer_step_def)

lemma once_step_trans: "once_step x y \<Longrightarrow> once_step y z \<Longrightarrow> once_step x z"
  by (auto simp: once_step_def)

lemma same_frame_trans: "same_frame s s1 \<Longrightarrow> same_frame s1 s2 \<Longrightarrow> same_frame s s2"
  by (auto simp: same_frame_def)

lemma cascD:
  assumes "casc e c s s'"
  shows "same_frame s s'" "node_step e c (cancelCtxs s a) (cancelCtxs s' a)"
    "children_done s s'" "timer_step (timerCtxs s b) (timerCtxs s' b)"
    "timers s' \<subseteq>\<^sub>m timers s" "once_step (afterFuncCtxs s d) (afterFuncCtxs s' d)"
  using assms unfolding casc_def by blast+


lemma casc_valid_ptr: "casc e c s s' \<Longrightarrow> valid_ptr s' p = valid_ptr s p"
  using cascD(2)[of e c s s' "addr_of p", THEN node_step_None]
        cascD(4)[of e c s s' "addr_of p", THEN timer_step_None]
        cascD(6)[of e c s s' "addr_of p", THEN once_step_None]
  by (cases p) simp_all

lemma casc_keeps: "casc e c s s' \<Longrightarrow> \<not> active s a \<Longrightarrow> cancelCtxs s' a = cancelCtxs s a"
  using cascD(2)[of e c s s' a] by (auto simp: active_def node_step_def)

lemma casc_inactive: "casc e c s s' \<Longrightarrow> \<not> active s a \<Longrightarrow> \<not> active s' a"
  by (simp add: casc_keeps active_def)

lemma casc_timer_cleared:
  assumes c: "casc e c s s'" and t: "timer_cleared s a"
  shows "timer_cleared s' a"
proof -
  have "\<And>tm t. timers s' tm = Some t \<Longrightarrow> target t \<noteq> a"
  proof -
    fix tm t assume "timers s' tm = Some t"
    then have "timers s tm = Some t"
      using cascD(5)[OF c] by (auto simp: map_le_def dom_def)
    then show "target t \<noteq> a" using t unfolding timer_cleared_def by blast
  qed
  moreover have "case timerCtxs s' a of None \<Rightarrow> True | Some t \<Rightarrow> timer t = None"
    using cascD(4)[OF c, of a] t unfolding timer_cleared_def timer_step_def
    by (auto split: option.splits)
  ultimately show ?thesis unfolding timer_cleared_def by blast
qed

lemma casc_stopped: "casc e c s s' \<Longrightarrow> stopped s k \<Longrightarrow> stopped s' k"
  by (cases k) (simp_all add: casc_timer_cleared)

lemma kids_cong: "cancelCtxs s' a = cancelCtxs s a \<Longrightarrow> kids s' a = kids s a"
  by (simp add: kids_def)

lemma active_cong: "cancelCtxs s' a = cancelCtxs s a \<Longrightarrow> active s' a = active s a"
  by (simp add: active_def)

lemma casc_trans:
  assumes 1: "casc e c s s1" and 2: "casc e c s1 s2"
  shows "casc e c s s2"
proof -
  have clos: "children_done s s2"
    unfolding children_done_def
  proof (intro allI impI)
    fix a assume ch: "cancelCtxs s2 a \<noteq> cancelCtxs s a"
    show "\<forall>k \<in> set (kids s a). \<not> active s2 (addr_of k) \<and> stopped s2 k"
    proof (cases "cancelCtxs s1 a = cancelCtxs s a")
      case True
      then have "cancelCtxs s2 a \<noteq> cancelCtxs s1 a" using ch by simp
      then have "\<forall>k \<in> set (kids s1 a). \<not> active s2 (addr_of k) \<and> stopped s2 k"
        using cascD(3)[OF 2] unfolding children_done_def by blast
      then show ?thesis using kids_cong[OF True] by simp
    next
      case False
      then have "\<forall>k \<in> set (kids s a). \<not> active s1 (addr_of k) \<and> stopped s1 k"
        using cascD(3)[OF 1] unfolding children_done_def by blast
      then show ?thesis using casc_inactive[OF 2] casc_stopped[OF 2] by blast
    qed
  qed
  show ?thesis
    unfolding casc_def
  proof (intro conjI allI)
    show "same_frame s s2" using cascD(1)[OF 1] cascD(1)[OF 2] by (rule same_frame_trans)
    show "node_step e c (cancelCtxs s a) (cancelCtxs s2 a)" for a
      using cascD(2)[OF 1] cascD(2)[OF 2] by (rule node_step_trans)
    show "children_done s s2" by (rule clos)
    show "timer_step (timerCtxs s a) (timerCtxs s2 a)" for a
      using cascD(4)[OF 1] cascD(4)[OF 2] by (rule timer_step_trans)
    show "timers s2 \<subseteq>\<^sub>m timers s"
      using cascD(5)[OF 2] cascD(5)[OF 1] by (rule map_le_trans)
    show "once_step (afterFuncCtxs s a) (afterFuncCtxs s2 a)" for a
      using cascD(6)[OF 1] cascD(6)[OF 2] by (rule once_step_trans)
  qed
qed

lemma casc_peak: "peak s \<le> pk \<Longrightarrow> casc e c s (s\<lparr>peak := pk\<rparr>)"
  by (simp add: casc_def same_frame_def children_done_def)

lemma valid_ptr_cong:
  "cancelCtxs s' = cancelCtxs s \<Longrightarrow> timerCtxs s' = timerCtxs s \<Longrightarrow>
   afterFuncCtxs s' = afterFuncCtxs s \<Longrightarrow> valid_ptr s' p = valid_ptr s p"
  by (cases p) simp_all

lemma kids_cong': "cancelCtxs s' = cancelCtxs s \<Longrightarrow> kids s' = kids s"
  by (simp add: kids_def fun_eq_iff)

lemma heap_ok_cong:
  assumes "cancelCtxs s' = cancelCtxs s" "timerCtxs s' = timerCtxs s"
    "afterFuncCtxs s' = afterFuncCtxs s" "nxt s' = nxt s" "closed s' = closed s"
    "timers s' = timers s"
  shows "heap_ok s' = heap_ok s"
  unfolding heap_ok_def
  by (simp add: assms kids_cong'[OF assms(1)] valid_ptr_cong[OF assms(1-3)])

lemma heap_ok_peak: "heap_ok (s\<lparr>peak := pk\<rparr>) = heap_ok s"
  by (rule heap_ok_cong) simp_all


lemma casc_refl: "casc e c s s"
  by (simp add: casc_def same_frame_def children_done_def)

lemma begin_cancel_node:
  assumes "cancelCtxs s a = Some x"
  shows "cancelCtxs (begin_cancel a x e c s) =
           (cancelCtxs s)(a \<mapsto> (cancelled_node e c x)\<lparr>children := children x\<rparr>)"
proof -
  have "x\<lparr>err := Some e, cause := Some c, done_c := Some Closedchan\<rparr> =
        (cancelled_node e c x)\<lparr>children := children x\<rparr>" if "done_c x = None"
    using that by (simp add: cancelled_node_def)
  moreover have "x\<lparr>err := Some e, cause := Some c\<rparr> =
        (cancelled_node e c x)\<lparr>children := children x\<rparr>" if "done_c x = Some d" for d
    using that by (simp add: cancelled_node_def)
  ultimately show ?thesis using assms
    by (auto simp: begin_cancel_def modify_def Let_def fun_eq_iff split: option.splits)
qed

lemma begin_cancel_fields:
  "timerCtxs (begin_cancel a x e c s) = timerCtxs s"
  "afterFuncCtxs (begin_cancel a x e c s) = afterFuncCtxs s"
  "nxt (begin_cancel a x e c s) = nxt s"
  "held (begin_cancel a x e c s) = a # held s"
  "peak (begin_cancel a x e c s) = max (peak s) (Suc (length (held s)))"
  "closed (begin_cancel a x e c s) =
     (case done_c x of None \<Rightarrow> closed s | Some d \<Rightarrow> insert d (closed s))"
  "now (begin_cancel a x e c s) = now s"
  "timers (begin_cancel a x e c s) = timers s"
  "nxt_timer (begin_cancel a x e c s) = nxt_timer s"
  "goroutines (begin_cancel a x e c s) = goroutines s"
  "waiters (begin_cancel a x e c s) = waiters s"
  "registered (begin_cancel a x e c s) = registered s"
  "nxt_reg (begin_cancel a x e c s) = nxt_reg s"
  "started (begin_cancel a x e c s) = started s"
  by (simp_all add: begin_cancel_def modify_def Let_def split: option.splits)

lemma finish_cancel_node:
  "cancelCtxs (finish_cancel a s) =
     (cancelCtxs s)(a := map_option (\<lambda>x. x\<lparr>children := None\<rparr>) (cancelCtxs s a))"
  by (simp add: finish_cancel_def modify_def unlock_def)

lemma finish_cancel_fields:
  "timerCtxs (finish_cancel a s) = timerCtxs s"
  "afterFuncCtxs (finish_cancel a s) = afterFuncCtxs s"
  "nxt (finish_cancel a s) = nxt s"
  "held (finish_cancel a s) = remove1 a (held s)"
  "peak (finish_cancel a s) = peak s"
  "closed (finish_cancel a s) = closed s"
  "now (finish_cancel a s) = now s"
  "timers (finish_cancel a s) = timers s"
  "nxt_timer (finish_cancel a s) = nxt_timer s"
  "goroutines (finish_cancel a s) = goroutines s"
  "waiters (finish_cancel a s) = waiters s"
  "registered (finish_cancel a s) = registered s"
  "nxt_reg (finish_cancel a s) = nxt_reg s"
  "started (finish_cancel a s) = started s"
  by (simp_all add: finish_cancel_def modify_def unlock_def)

lemma forEach_cascade:
  assumes rec: "\<And>k s. k \<in> set ks \<Longrightarrow> heap_ok s \<Longrightarrow> valid_ptr s k \<Longrightarrow> held s = H \<Longrightarrow>
       nxt s = N \<Longrightarrow>
       \<exists>s'. g k s = Inr s' \<and> casc e c s s' \<and> heap_ok s' \<and> \<not> active s' (addr_of k) \<and> stopped s' k"
    and "heap_ok s" "\<forall>k\<in>set ks. valid_ptr s k" "held s = H" "nxt s = N"
  shows "\<exists>s'. forEach g ks s = Inr s' \<and> casc e c s s' \<and> heap_ok s' \<and>
           (\<forall>k\<in>set ks. \<not> active s' (addr_of k) \<and> stopped s' k)"
  using assms
proof (induction ks arbitrary: s)
  case Nil
  then show ?case by (simp add: casc_refl)
next
  case (Cons k ks)
  from Cons.prems(1)[of k s] Cons.prems(2-5)
  obtain s1 where s1: "g k s = Inr s1" "casc e c s s1" "heap_ok s1"
    "\<not> active s1 (addr_of k)" "stopped s1 k"
    by auto
  have fr: "held s1 = H" "nxt s1 = N"
    using cascD(1)[OF s1(2)] Cons.prems(4,5) by (simp_all add: same_frame_def)
  have val: "\<forall>k\<in>set ks. valid_ptr s1 k"
    using Cons.prems(3) by (simp add: casc_valid_ptr[OF s1(2)])
  have "\<exists>s'. forEach g ks s1 = Inr s' \<and> casc e c s1 s' \<and> heap_ok s' \<and>
           (\<forall>k\<in>set ks. \<not> active s' (addr_of k) \<and> stopped s' k)"
    by (rule Cons.IH[OF _ s1(3) val fr]) (rule Cons.prems(1), simp_all)
  then obtain s2 where s2: "forEach g ks s1 = Inr s2" "casc e c s1 s2" "heap_ok s2"
    "\<forall>k\<in>set ks. \<not> active s2 (addr_of k) \<and> stopped s2 k"
    by blast
  have "forEach g (k # ks) s = Inr s2" using s1(1) s2(1) by simp
  moreover have "casc e c s s2" by (rule casc_trans[OF s1(2) s2(2)])
  moreover have "\<not> active s2 (addr_of k)" by (rule casc_inactive[OF s2(2) s1(4)])
  moreover have "stopped s2 k" by (rule casc_stopped[OF s2(2) s1(5)])
  ultimately show ?case using s2(3,4) by simp
qed


lemma heap_okD:
  assumes "heap_ok s"
  shows "cancelCtxs s a \<noteq> None \<Longrightarrow> a < nxt s"
    and "k \<in> set (kids s a) \<Longrightarrow> a < addr_of k \<and> valid_ptr s k"
    and "cancelCtxs s a = Some x \<Longrightarrow> err x = None \<Longrightarrow>
           (done_c x = None \<or> done_c x = Some (MadeBy a)) \<and> MadeBy a \<notin> closed s"
    and "cancelCtxs s a = Some x \<Longrightarrow> err x \<noteq> None \<Longrightarrow>
           done_c x = Some Closedchan \<or> (done_c x = Some (MadeBy a) \<and> MadeBy a \<in> closed s)"
    and "timers s tm = Some t \<Longrightarrow> \<exists>t'. timerCtxs s (target t) = Some t' \<and> timer t' = Some tm"
  using assms unfolding heap_ok_def by blast+

lemma valid_ptr_dom:
  assumes "\<And>b. (cancelCtxs s' b = None) = (cancelCtxs s b = None)"
    and "\<And>b. (timerCtxs s' b = None) = (timerCtxs s b = None)"
    and "\<And>b. (afterFuncCtxs s' b = None) = (afterFuncCtxs s b = None)"
  shows "valid_ptr s' p = valid_ptr s p"
  using assms by (cases p) simp_all

lemma heap_ok_begin:
  assumes ok: "heap_ok s" and x: "cancelCtxs s a = Some x" and act: "err x = None"
  shows "heap_ok (begin_cancel a x e c s)"
proof -
  let ?sb = "begin_cancel a x e c s"
  note nd = begin_cancel_node[OF x, of e c]
  note fl = begin_cancel_fields[of a x e c s]
  have kid: "kids ?sb b = kids s b" for b
    using x by (simp add: kids_def nd cancelled_node_def)
  have val: "valid_ptr ?sb p = valid_ptr s p" for p
    by (rule valid_ptr_dom) (simp_all add: nd fl x)
  from heap_okD(3)[OF ok x act]
  have dx: "done_c x = None \<or> done_c x = Some (MadeBy a)" and nc: "MadeBy a \<notin> closed s"
    by simp_all
  have cl: "closed ?sb = closed s \<or> closed ?sb = insert (MadeBy a) (closed s)"
    using dx by (auto simp: fl)
  show ?thesis
    unfolding heap_ok_def
  proof (intro conjI allI impI ballI)
    fix b assume "cancelCtxs ?sb b \<noteq> None"
    then have "cancelCtxs s b \<noteq> None" using x by (auto simp: nd split: if_splits)
    then show "b < nxt ?sb" using heap_okD(1)[OF ok] by (simp add: fl)
  next
    fix b k assume "k \<in> set (kids ?sb b)"
    then show "b < addr_of k" "valid_ptr ?sb k"
      using heap_okD(2)[OF ok, of k b] by (simp_all add: kid val)
  next
    fix b y assume y: "cancelCtxs ?sb b = Some y" and ey: "err y = None"
    then have ba: "b \<noteq> a" by (auto simp: nd cancelled_node_def)
    with y have "cancelCtxs s b = Some y" by (simp add: nd)
    from heap_okD(3)[OF ok this ey] ba cl
    show "done_c y = None \<or> done_c y = Some (MadeBy b)" "MadeBy b \<notin> closed ?sb"
      by auto
  next
    fix b y assume y: "cancelCtxs ?sb b = Some y" and ey: "err y \<noteq> None"
    show "done_c y = Some Closedchan \<or> (done_c y = Some (MadeBy b) \<and> MadeBy b \<in> closed ?sb)"
    proof (cases "b = a")
      case True
      then have "y = (cancelled_node e c x)\<lparr>children := children x\<rparr>" using y by (simp add: nd)
      then show ?thesis using dx True by (auto simp: cancelled_node_def fl)
    next
      case False
      with y have "cancelCtxs s b = Some y" by (simp add: nd)
      from heap_okD(4)[OF ok this ey] cl show ?thesis by auto
    qed
  next
    fix tm t assume "timers ?sb tm = Some t"
    then have "timers s tm = Some t" by (simp add: fl)
    from heap_okD(5)[OF ok this]
    show "\<exists>t'. timerCtxs ?sb (target t) = Some t' \<and> timer t' = Some tm"
      by (simp add: fl)
  qed
qed

lemma heap_ok_finish:
  assumes ok: "heap_ok s"
  shows "heap_ok (finish_cancel a s)"
proof -
  let ?sf = "finish_cancel a s"
  note nd = finish_cancel_node[of a s]
  note fl = finish_cancel_fields[of a s]
  have "kids ?sf b = (if b = a then [] else kids s b)" for b
    by (cases "cancelCtxs s a") (simp_all add: kids_def nd)
  then have kid: "set (kids ?sf b) \<subseteq> set (kids s b)" for b
    by simp
  have val: "valid_ptr ?sf p = valid_ptr s p" for p
    by (rule valid_ptr_dom) (simp_all add: nd fl)
  show ?thesis
    unfolding heap_ok_def
  proof (intro conjI allI impI ballI)
    fix b assume "cancelCtxs ?sf b \<noteq> None"
    then have "cancelCtxs s b \<noteq> None" by (auto simp: nd split: if_splits)
    then show "b < nxt ?sf" using heap_okD(1)[OF ok] by (simp add: fl)
  next
    fix b k assume "k \<in> set (kids ?sf b)"
    then have "k \<in> set (kids s b)" using kid by blast
    then show "b < addr_of k" "valid_ptr ?sf k"
      using heap_okD(2)[OF ok, of k b] by (simp_all add: val)
  next
    fix b y assume y: "cancelCtxs ?sf b = Some y" and ey: "err y = None"
    then obtain z where z: "cancelCtxs s b = Some z" "err z = None" "done_c z = done_c y"
      by (auto simp: nd split: if_splits)
    from heap_okD(3)[OF ok z(1,2)] z(3)
    show "done_c y = None \<or> done_c y = Some (MadeBy b)" "MadeBy b \<notin> closed ?sf"
      by (simp_all add: fl)
  next
    fix b y assume y: "cancelCtxs ?sf b = Some y" and ey: "err y \<noteq> None"
    then obtain z where z: "cancelCtxs s b = Some z" "err z \<noteq> None" "done_c z = done_c y"
      by (auto simp: nd split: if_splits)
    from heap_okD(4)[OF ok z(1,2)] z(3)
    show "done_c y = Some Closedchan \<or> (done_c y = Some (MadeBy b) \<and> MadeBy b \<in> closed ?sf)"
      by (simp add: fl)
  next
    fix tm t assume "timers ?sf tm = Some t"
    then have "timers s tm = Some t" by (simp add: fl)
    from heap_okD(5)[OF ok this]
    show "\<exists>t'. timerCtxs ?sf (target t) = Some t' \<and> timer t' = Some tm"
      by (simp add: fl)
  qed
qed

lemma active_finish: "active (finish_cancel a s) b = active s b"
  by (cases "cancelCtxs s a") (simp_all add: active_def finish_cancel_node)

lemma stopped_cong:
  "timerCtxs s' = timerCtxs s \<Longrightarrow> timers s' = timers s \<Longrightarrow> stopped s' k = stopped s k"
  by (cases k) (simp_all add: timer_cleared_def)

lemma cancelCtx_cancel_cascade:
  assumes rec: "\<And>k s. heap_ok s \<Longrightarrow> valid_ptr s k \<Longrightarrow> a < addr_of k \<Longrightarrow> held s = a # H \<Longrightarrow>
       nxt s = N \<Longrightarrow>
       \<exists>s'. rec k False (Some e) (Some c) s = Inr s' \<and> casc e c s s' \<and> heap_ok s' \<and>
            \<not> active s' (addr_of k) \<and> stopped s' k"
    and ok: "heap_ok s" and x: "cancelCtxs s a = Some x" and nh: "a \<notin> set H"
    and h: "held s = H" and n: "nxt s = N" and c: "c = eff_cause e cause0"
  shows "\<exists>s'. cancelCtx_cancel rec m a False (Some e) cause0 s = Inr s' \<and> casc e c s s' \<and>
           heap_ok s' \<and> \<not> active s' a"
proof (cases "err x = None")
  case False
  have "cancelCtx_cancel rec m a False (Some e) cause0 s =
          Inr (s\<lparr>peak := max (peak s) (Suc (length (held s)))\<rparr>)"
    using x False nh h by (simp add: cancelCtx_cancel_done)
  moreover have "casc e c s (s\<lparr>peak := max (peak s) (Suc (length (held s)))\<rparr>)"
    by (rule casc_peak) simp
  moreover have "\<not> active (s\<lparr>peak := max (peak s) (Suc (length (held s)))\<rparr>) a"
    using x False by (simp add: active_def)
  ultimately show ?thesis using ok by (simp add: heap_ok_peak)
next
  case True
  let ?sb = "begin_cancel a x e c s"
  note nd = begin_cancel_node[OF x, of e c]
  note fl = begin_cancel_fields[of a x e c s]
  from heap_okD(3)[OF ok x True]
  have dx: "done_c x = None \<or> done_c x = Some (MadeBy a)" and nc: "MadeBy a \<notin> closed s"
    by simp_all
  have open_d: "\<And>d. done_c x = Some d \<Longrightarrow> \<not> is_closed s d"
    using dx nc by (auto simp: is_closed_def)
  have ev: "cancelCtx_cancel rec m a False (Some e) cause0 s =
              andThen (forEach (\<lambda>child. rec child False (Some e) (Some c)) (kids s a) ?sb)
                (\<lambda>s5. Inr (finish_cancel a s5))"
    using cancelCtx_cancel_active[OF x True _ open_d, of rec m False e cause0] nh h c by simp
  have okb: "heap_ok ?sb" by (rule heap_ok_begin[OF ok x True])
  have valb: "valid_ptr ?sb p = valid_ptr s p" for p
    by (rule valid_ptr_dom) (simp_all add: nd fl x)
  have kv: "\<forall>k\<in>set (kids s a). valid_ptr ?sb k"
    using heap_okD(2)[OF ok] by (simp add: valb)
  have "\<exists>s'. forEach (\<lambda>child. rec child False (Some e) (Some c)) (kids s a) ?sb = Inr s' \<and>
          casc e c ?sb s' \<and> heap_ok s' \<and>
          (\<forall>k\<in>set (kids s a). \<not> active s' (addr_of k) \<and> stopped s' k)"
  proof (rule forEach_cascade[where H = "a # H" and N = N])
    fix k s1 assume "k \<in> set (kids s a)" "heap_ok s1" "valid_ptr s1 k" "held s1 = a # H"
      "nxt s1 = N"
    then show "\<exists>s'. rec k False (Some e) (Some c) s1 = Inr s' \<and> casc e c s1 s' \<and> heap_ok s' \<and>
            \<not> active s' (addr_of k) \<and> stopped s' k"
      using rec[of s1 k] heap_okD(2)[OF ok, of k a] by simp
  qed (simp_all add: okb kv fl h n)
  then obtain s5 where s5: "forEach (\<lambda>child. rec child False (Some e) (Some c)) (kids s a) ?sb = Inr s5"
    "casc e c ?sb s5" "heap_ok s5"
    "\<forall>k\<in>set (kids s a). \<not> active s5 (addr_of k) \<and> stopped s5 k"
    by blast
  let ?sf = "finish_cancel a s5"
  note nf = finish_cancel_node[of a s5]
  note ff = finish_cancel_fields[of a s5]
  have res: "cancelCtx_cancel rec m a False (Some e) cause0 s = Inr ?sf"
    using ev s5(1) by simp
  have inact_b: "\<not> active ?sb a" by (simp add: active_def nd cancelled_node_def)
  have a5: "cancelCtxs s5 a = Some ((cancelled_node e c x)\<lparr>children := children x\<rparr>)"
    using casc_keeps[OF s5(2) inact_b] by (simp add: nd)
  have af: "cancelCtxs ?sf a = Some (cancelled_node e c x)"
    by (simp add: nf a5 cancelled_node_def)
  have other: "cancelCtxs ?sf b = cancelCtxs s5 b" "cancelCtxs ?sb b = cancelCtxs s b"
    if "b \<noteq> a" for b
    using that by (simp_all add: nf nd)
  have fr5: "same_frame ?sb s5" by (rule cascD(1)[OF s5(2)])
  have frame: "same_frame s ?sf"
    using fr5 dx by (auto simp: same_frame_def ff fl h)
  have node: "node_step e c (cancelCtxs s b) (cancelCtxs ?sf b)" for b
  proof (cases "b = a")
    case True
    then show ?thesis using x True af \<open>err x = None\<close> by (simp add: node_step_def)
  next
    case False
    then show ?thesis using cascD(2)[OF s5(2), of b] other[OF False] by simp
  qed
  have stf: "stopped ?sf k = stopped s5 k" for k
    by (rule stopped_cong) (simp_all add: ff)
  have clos: "children_done s ?sf"
    unfolding children_done_def
  proof (intro allI impI)
    fix b assume ch: "cancelCtxs ?sf b \<noteq> cancelCtxs s b"
    show "\<forall>k\<in>set (kids s b). \<not> active ?sf (addr_of k) \<and> stopped ?sf k"
    proof (cases "b = a")
      case True
      then show ?thesis using s5(4) by (simp add: active_finish stf)
    next
      case False
      then have "cancelCtxs s5 b \<noteq> cancelCtxs ?sb b" using ch other[OF False] by simp
      then have "\<forall>k\<in>set (kids ?sb b). \<not> active s5 (addr_of k) \<and> stopped s5 k"
        using cascD(3)[OF s5(2)] unfolding children_done_def by blast
      moreover have "kids ?sb b = kids s b" by (rule kids_cong) (simp add: other[OF False])
      ultimately show ?thesis by (simp add: active_finish stf)
    qed
  qed
  have "casc e c s ?sf"
    unfolding casc_def
  proof (intro conjI allI)
    show "same_frame s ?sf" by (rule frame)
    show "node_step e c (cancelCtxs s b) (cancelCtxs ?sf b)" for b by (rule node)
    show "children_done s ?sf" by (rule clos)
    show "timer_step (timerCtxs s b) (timerCtxs ?sf b)" for b
      using cascD(4)[OF s5(2), of b] by (simp add: ff fl)
    show "timers ?sf \<subseteq>\<^sub>m timers s" using cascD(5)[OF s5(2)] by (simp add: ff fl)
    show "once_step (afterFuncCtxs s b) (afterFuncCtxs ?sf b)" for b
      using cascD(6)[OF s5(2), of b] by (simp add: ff fl)
  qed
  moreover have "heap_ok ?sf" by (rule heap_ok_finish[OF s5(3)])
  moreover have "\<not> active ?sf a" by (simp add: active_def af cancelled_node_def)
  ultimately show ?thesis using res by blast
qed

lemma heap_ok_timer_cleared:
  assumes ok: "heap_ok s" and t: "timerCtxs s a = Some t" "timer t = None"
  shows "timer_cleared s a"
  unfolding timer_cleared_def
proof (intro conjI allI impI)
  show "case timerCtxs s a of None \<Rightarrow> True | Some t \<Rightarrow> timer t = None" using t by simp
next
  fix tm t0 assume "timers s tm = Some t0"
  from heap_okD(5)[OF ok this] t show "target t0 \<noteq> a" by auto
qed

lemma timerCtx_cancel_eq:
  "timerCtx_cancel rec n c rfp err0 cause0 s =
     andThen (cancelCtx_cancel rec n c False err0 cause0 s) (\<lambda>s1.
     andThen
       (if rfp then andThen (load c s1) (\<lambda>c1. removeChild n (Context c1) (TimerCtxPtr c) s1)
        else Inr s1) (stop_timer c))"
  by (simp add: timerCtx_cancel_def stop_timer_def[abs_def])

lemma stop_timer_casc:
  assumes ok: "heap_ok s" and t: "timerCtxs s a = Some t" and nh: "a \<notin> set (held s)"
  shows "\<exists>s'. stop_timer a s = Inr s' \<and> casc e c s s' \<and> heap_ok s' \<and> timer_cleared s' a \<and>
           cancelCtxs s' = cancelCtxs s"
proof (cases "timer t")
  case None
  let ?s' = "s\<lparr>peak := max (peak s) (Suc (length (held s)))\<rparr>"
  have "stop_timer a s = Inr ?s'"
    using t nh None by (simp add: stop_timer_def lock_def unlock_def)
  moreover have "casc e c s ?s'" by (rule casc_peak) simp
  moreover have "heap_ok ?s'" using ok by (simp add: heap_ok_peak)
  moreover have "timer_cleared ?s' a"
    using heap_ok_timer_cleared[OF ok t None] by (simp add: timer_cleared_def)
  ultimately show ?thesis by simp
next
  case (Some tid)
  let ?s' = "s\<lparr>peak := max (peak s) (Suc (length (held s))),
               timers := (timers s)(tid := None),
               timerCtxs := (timerCtxs s)(a \<mapsto> t\<lparr>timer := None\<rparr>)\<rparr>"
  have res: "stop_timer a s = Inr ?s'"
    using t nh Some by (simp add: stop_timer_def lock_def unlock_def)
  have c: "casc e c s ?s'"
    unfolding casc_def
  proof (intro conjI allI)
    show "same_frame s ?s'" by (simp add: same_frame_def)
    show "children_done s ?s'" by (simp add: children_done_def)
    show "timer_step (timerCtxs s b) (timerCtxs ?s' b)" for b
      using t by (simp add: timer_step_def)
    show "timers ?s' \<subseteq>\<^sub>m timers s" by (simp add: map_le_def)
  qed simp_all
  have val: "valid_ptr ?s' p = valid_ptr s p" for p
    by (rule valid_ptr_dom) (simp_all add: t)
  have kid: "kids ?s' = kids s" by (rule kids_cong') simp
  have hk: "heap_ok ?s'"
    unfolding heap_ok_def
  proof (intro conjI allI impI ballI)
    fix b assume "cancelCtxs ?s' b \<noteq> None"
    then show "b < nxt ?s'" using heap_okD(1)[OF ok, of b] by simp
  next
    fix b k assume "k \<in> set (kids ?s' b)"
    then show "b < addr_of k" "valid_ptr ?s' k"
      using heap_okD(2)[OF ok, of k b] by (simp_all add: kid val)
  next
    fix b y assume "cancelCtxs ?s' b = Some y" "err y = None"
    then show "done_c y = None \<or> done_c y = Some (MadeBy b)" "MadeBy b \<notin> closed ?s'"
      using heap_okD(3)[OF ok, of b y] by simp_all
  next
    fix b y assume "cancelCtxs ?s' b = Some y" "err y \<noteq> None"
    then show "done_c y = Some Closedchan \<or> (done_c y = Some (MadeBy b) \<and> MadeBy b \<in> closed ?s')"
      using heap_okD(4)[OF ok, of b y] by simp
  next
    fix tm t0 assume "timers ?s' tm = Some t0"
    then have tm: "tm \<noteq> tid" "timers s tm = Some t0" by (auto split: if_splits)
    from heap_okD(5)[OF ok tm(2)] obtain t' where t': "timerCtxs s (target t0) = Some t'"
      "timer t' = Some tm" by blast
    have "target t0 \<noteq> a" using t' t Some tm(1) by auto
    then show "\<exists>t'. timerCtxs ?s' (target t0) = Some t' \<and> timer t' = Some tm"
      using t' by simp
  qed
  have "timer_cleared ?s' a"
    by (rule heap_ok_timer_cleared[OF hk, of a "t\<lparr>timer := None\<rparr>"]) simp_all
  then show ?thesis using res c hk by simp
qed

lemma afterFuncCtx_cancel_eq:
  "afterFuncCtx_cancel rec n a rfp err0 cause0 s =
     andThen (cancelCtx_cancel rec n a False err0 cause0 s) (\<lambda>s1.
     andThen
       (if rfp then andThen (load a s1) (\<lambda>c1. removeChild n (Context c1) (AfterFuncCtxPtr a) s1)
        else Inr s1) (run_once a))"
  by (simp add: afterFuncCtx_cancel_def run_once_def[abs_def])

lemma run_once_casc:
  assumes ok: "heap_ok s" and f: "afterFuncCtxs s a = Some f"
  shows "\<exists>s'. run_once a s = Inr s' \<and> casc e c s s' \<and> heap_ok s' \<and>
           cancelCtxs s' = cancelCtxs s"
proof (cases "once f")
  case True
  then show ?thesis using f ok by (simp add: run_once_def casc_refl)
next
  case False
  let ?s' = "s\<lparr>afterFuncCtxs := (afterFuncCtxs s)(a \<mapsto> f\<lparr>once := True\<rparr>),
               started := fn f # started s\<rparr>"
  have res: "run_once a s = Inr ?s'" using f False by (simp add: run_once_def)
  have c: "casc e c s ?s'"
    unfolding casc_def
  proof (intro conjI allI)
    show "same_frame s ?s'" by (simp add: same_frame_def)
    show "children_done s ?s'" by (simp add: children_done_def)
    show "once_step (afterFuncCtxs s b) (afterFuncCtxs ?s' b)" for b
      using f by (simp add: once_step_def)
  qed simp_all
  have val: "valid_ptr ?s' p = valid_ptr s p" for p
    by (rule valid_ptr_dom) (simp_all add: f)
  have kid: "kids ?s' = kids s" by (rule kids_cong') simp
  have hk: "heap_ok ?s'"
    unfolding heap_ok_def
  proof (intro conjI allI impI ballI)
    fix b assume "cancelCtxs ?s' b \<noteq> None"
    then show "b < nxt ?s'" using heap_okD(1)[OF ok, of b] by simp
  next
    fix b k assume "k \<in> set (kids ?s' b)"
    then show "b < addr_of k" "valid_ptr ?s' k"
      using heap_okD(2)[OF ok, of k b] by (simp_all add: kid val)
  next
    fix b y assume "cancelCtxs ?s' b = Some y" "err y = None"
    then show "done_c y = None \<or> done_c y = Some (MadeBy b)" "MadeBy b \<notin> closed ?s'"
      using heap_okD(3)[OF ok, of b y] by simp_all
  next
    fix b y assume "cancelCtxs ?s' b = Some y" "err y \<noteq> None"
    then show "done_c y = Some Closedchan \<or> (done_c y = Some (MadeBy b) \<and> MadeBy b \<in> closed ?s')"
      using heap_okD(4)[OF ok, of b y] by simp
  next
    fix tm t0 assume "timers ?s' tm = Some t0"
    then show "\<exists>t'. timerCtxs ?s' (target t0) = Some t' \<and> timer t' = Some tm"
      using heap_okD(5)[OF ok, of tm t0] by simp
  qed
  show ?thesis using res c hk by simp
qed

text \<open>The cascade: on a well-formed store, with fuel for the part of the store above the
  node, \<^verbatim>\<open>cancel(false, e, cause)\<close> returns.\<close>

lemma cancel_cascade:
  assumes "heap_ok s" "valid_ptr s p" "\<forall>h\<in>set (held s). h < addr_of p"
    "nxt s \<le> n + addr_of p"
  shows "\<exists>s'. cancel n p False (Some e) cause0 s = Inr s' \<and> casc e (eff_cause e cause0) s s' \<and>
           heap_ok s' \<and> \<not> active s' (addr_of p) \<and> stopped s' p"
  using assms
proof (induction n arbitrary: p s cause0)
  case 0
  then have "cancelCtxs s (addr_of p) \<noteq> None" by (cases p) simp_all
  from heap_okD(1)[OF "0.prems"(1) this] "0.prems"(4) show ?case by simp
next
  case (Suc n)
  let ?a = "addr_of p"
  let ?c = "eff_cause e cause0"
  from Suc.prems(2) obtain x where x: "cancelCtxs s ?a = Some x" by (cases p) auto
  have nh: "?a \<notin> set (held s)" using Suc.prems(3) by auto
  have rec: "\<exists>s'. cancel n k False (Some e) (Some ?c) s1 = Inr s' \<and> casc e ?c s1 s' \<and>
        heap_ok s' \<and> \<not> active s' (addr_of k) \<and> stopped s' k"
    if "heap_ok s1" "valid_ptr s1 k" "?a < addr_of k" "held s1 = ?a # held s" "nxt s1 = nxt s"
    for k s1
  proof -
    have "\<forall>h\<in>set (held s1). h < addr_of k" using that(3,4) Suc.prems(3) by auto
    moreover have "nxt s1 \<le> n + addr_of k" using that(3,5) Suc.prems(4) by simp
    ultimately show ?thesis
      using Suc.IH[OF that(1,2), of "Some ?c"] by (simp add: eff_cause_def)
  qed
  have core: "\<exists>s'. cancelCtx_cancel (cancel n) (Suc n) ?a False (Some e) cause0 s = Inr s' \<and>
      casc e ?c s s' \<and> heap_ok s' \<and> \<not> active s' ?a"
  proof (rule cancelCtx_cancel_cascade[where rec = "cancel n" and H = "held s" and N = "nxt s"
        and x = x])
    show "\<exists>s'. cancel n k False (Some e) (Some ?c) s1 = Inr s' \<and> casc e ?c s1 s' \<and>
        heap_ok s' \<and> \<not> active s' (addr_of k) \<and> stopped s' k"
      if "heap_ok s1" "valid_ptr s1 k" "?a < addr_of k" "held s1 = ?a # held s" "nxt s1 = nxt s"
      for k s1
      using that by (rule rec)
  qed (simp_all add: Suc.prems(1) x nh)
  then obtain s1 where s1: "cancelCtx_cancel (cancel n) (Suc n) ?a False (Some e) cause0 s = Inr s1"
    "casc e ?c s s1" "heap_ok s1" "\<not> active s1 ?a"
    by blast
  have h1: "held s1 = held s" using cascD(1)[OF s1(2)] by (simp add: same_frame_def)
  show ?case
  proof (cases p)
    case (CancelCtxPtr a)
    then show ?thesis using s1 by simp
  next
    case (TimerCtxPtr a)
    then obtain t where t: "timerCtxs s1 a = Some t"
      using Suc.prems(2) casc_valid_ptr[OF s1(2), of p] by auto
    from stop_timer_casc[OF s1(3) t, of e ?c] nh h1 TimerCtxPtr
    obtain s2 where s2: "stop_timer a s1 = Inr s2" "casc e ?c s1 s2" "heap_ok s2"
      "timer_cleared s2 a" "cancelCtxs s2 = cancelCtxs s1"
      by auto
    have "cancel (Suc n) p False (Some e) cause0 s = Inr s2"
      using TimerCtxPtr s1(1) s2(1) by (simp add: timerCtx_cancel_eq)
    moreover have "casc e ?c s s2" by (rule casc_trans[OF s1(2) s2(2)])
    moreover have "\<not> active s2 ?a" using s1(4) s2(5) by (simp add: active_def)
    ultimately show ?thesis using s2(3,4) TimerCtxPtr by simp
  next
    case (AfterFuncCtxPtr a)
    then obtain f where f: "afterFuncCtxs s1 a = Some f"
      using Suc.prems(2) casc_valid_ptr[OF s1(2), of p] by auto
    from run_once_casc[OF s1(3) f, of e ?c]
    obtain s2 where s2: "run_once a s1 = Inr s2" "casc e ?c s1 s2" "heap_ok s2"
      "cancelCtxs s2 = cancelCtxs s1"
      by auto
    have "cancel (Suc n) p False (Some e) cause0 s = Inr s2"
      using AfterFuncCtxPtr s1(1) s2(1) by (simp add: afterFuncCtx_cancel_eq)
    moreover have "casc e ?c s s2" by (rule casc_trans[OF s1(2) s2(2)])
    moreover have "\<not> active s2 ?a" using s1(4) s2(4) by (simp add: active_def)
    ultimately show ?thesis using s2(3) AfterFuncCtxPtr by simp
  qed
qed

lemma iface_eq_key [simp]: "iface_eq k CancelCtxKey = Some (k = CancelCtxKey)"
  "iface_eq CancelCtxKey k = Some (CancelCtxKey = k)"
  by (cases "(k, CancelCtxKey)" rule: iface_eq.cases; simp)+

lemma Value_key: "Value n c CancelCtxKey s = key_lookup c \<and> value n c CancelCtxKey s = key_lookup c"
proof (induction c)
  case (Ptr q)
  then show ?case by (cases q) simp_all
qed auto

lemma cancelCtx_Done_fast:
  "cancelCtxs s a = Some x \<Longrightarrow> done_c x = Some d \<Longrightarrow> cancelCtx_Done a s = Inr (Some d, s)"
  by (simp add: cancelCtx_Done_def load_def)

lemma cancelCtx_Done_slow:
  "cancelCtxs s a = Some x \<Longrightarrow> done_c x = None \<Longrightarrow> a \<notin> set (held s) \<Longrightarrow>
   cancelCtx_Done a s = Inr (Some (MadeBy a), made_done a s)"
  by (simp add: cancelCtx_Done_def load_def made_done_def lock_def make_chan_def modify_def)

lemma made_done_fields:
  assumes "a \<notin> set (held s)"
  shows "cancelCtxs (made_done a s) =
     (cancelCtxs s)(a := map_option (\<lambda>x. x\<lparr>done_c := Some (MadeBy a)\<rparr>) (cancelCtxs s a))"
  "timerCtxs (made_done a s) = timerCtxs s"
  "afterFuncCtxs (made_done a s) = afterFuncCtxs s"
  "nxt (made_done a s) = nxt s"
  "held (made_done a s) = held s"
  "peak (made_done a s) = max (peak s) (Suc (length (held s)))"
  "closed (made_done a s) = closed s - {MadeBy a}"
  "now (made_done a s) = now s"
  "timers (made_done a s) = timers s"
  "nxt_timer (made_done a s) = nxt_timer s"
  "goroutines (made_done a s) = goroutines s"
  "waiters (made_done a s) = waiters s"
  "registered (made_done a s) = registered s"
  "nxt_reg (made_done a s) = nxt_reg s"
  "started (made_done a s) = started s"
  using assms by (simp_all add: made_done_def lock_def make_chan_def modify_def unlock_def)

section \<open>Steps that cancel nothing\<close>

lemma node_quiet_refl [simp]: "node_quiet a x x"
  by (cases x) (simp_all add: node_quiet_def)

lemma node_quiet_trans:
  assumes "node_quiet a x y" "node_quiet a y z"
  shows "node_quiet a x z"
proof (cases x)
  case None
  then show ?thesis using assms by (simp add: node_quiet_def)
next
  case (Some x0)
  with assms(1) obtain y0 where y0: "y = Some y0" "err y0 = err x0" "cause y0 = cause x0"
    "Context y0 = Context x0"
    "done_c y0 = done_c x0 \<or> (done_c x0 = None \<and> done_c y0 = Some (MadeBy a))"
    "kidset y0 \<subseteq> kidset x0" "children x0 = None \<longrightarrow> children y0 = None"
    unfolding node_quiet_def by auto
  with assms(2) obtain z0 where z0: "z = Some z0" "err z0 = err y0" "cause z0 = cause y0"
    "Context z0 = Context y0"
    "done_c z0 = done_c y0 \<or> (done_c y0 = None \<and> done_c z0 = Some (MadeBy a))"
    "kidset z0 \<subseteq> kidset y0" "children y0 = None \<longrightarrow> children z0 = None"
    unfolding node_quiet_def by auto
  have "done_c z0 = done_c x0 \<or> (done_c x0 = None \<and> done_c z0 = Some (MadeBy a))"
    using y0(5) z0(5) by auto
  moreover have "kidset z0 \<subseteq> kidset x0" using y0(6) z0(6) by blast
  ultimately show ?thesis
    unfolding node_quiet_def using Some y0(1-4,7) z0(1-4,7) by simp
qed

lemma node_quiet_None: "node_quiet a x y \<Longrightarrow> (y = None) = (x = None)"
  by (auto simp: node_quiet_def)

lemma node_quietD:
  assumes "node_quiet a (Some x) new"
  obtains y where "new = Some y" "err y = err x" "cause y = cause x" "Context y = Context x"
    "done_c y = done_c x \<or> (done_c x = None \<and> done_c y = Some (MadeBy a))"
    "kidset y \<subseteq> kidset x" "children x = None \<longrightarrow> children y = None"
  using assms unfolding node_quiet_def by auto

lemma quiet_refl [simp]: "quiet s s"
  by (simp add: quiet_def)

lemma quietD:
  assumes "quiet s s'"
  shows "nxt s' = nxt s" "held s' = held s" "peak s \<le> peak s'" "now s' = now s"
    "closed s' = closed s" "goroutines s' = goroutines s" "waiters s' = waiters s"
    "nxt_reg s' = nxt_reg s" "nxt_timer s' = nxt_timer s"
    "registered s' \<subseteq>\<^sub>m registered s"
    "node_quiet a (cancelCtxs s a) (cancelCtxs s' a)"
    "timer_step (timerCtxs s b) (timerCtxs s' b)"
    "timers s' \<subseteq>\<^sub>m timers s"
    "once_step (afterFuncCtxs s d) (afterFuncCtxs s' d)"
  using assms unfolding quiet_def by blast+

lemma quiet_trans:
  assumes 1: "quiet s s1" and 2: "quiet s1 s2"
  shows "quiet s s2"
  unfolding quiet_def
proof (intro conjI allI)
  show "node_quiet a (cancelCtxs s a) (cancelCtxs s2 a)" for a
    using quietD(11)[OF 1] quietD(11)[OF 2] by (rule node_quiet_trans)
  show "timer_step (timerCtxs s a) (timerCtxs s2 a)" for a
    using quietD(12)[OF 1] quietD(12)[OF 2] by (rule timer_step_trans)
  show "timers s2 \<subseteq>\<^sub>m timers s"
    using quietD(13)[OF 2] quietD(13)[OF 1] by (rule map_le_trans)
  show "registered s2 \<subseteq>\<^sub>m registered s"
    using quietD(10)[OF 2] quietD(10)[OF 1] by (rule map_le_trans)
  show "once_step (afterFuncCtxs s a) (afterFuncCtxs s2 a)" for a
    using quietD(14)[OF 1] quietD(14)[OF 2] by (rule once_step_trans)
  show "peak s \<le> peak s2" using quietD(3)[OF 1] quietD(3)[OF 2] by simp
qed (simp_all add: quietD(1-9)[OF 1] quietD(1-9)[OF 2])

lemma quiet_valid_ptr: "quiet s s' \<Longrightarrow> valid_ptr s' p = valid_ptr s p"
  using quietD(11)[of s s' "addr_of p", THEN node_quiet_None]
        quietD(12)[of s s' "addr_of p", THEN timer_step_None]
        quietD(14)[of s s' "addr_of p", THEN once_step_None]
  by (cases p) simp_all

lemma quiet_active: "quiet s s' \<Longrightarrow> active s' a = active s a"
proof (cases "cancelCtxs s a")
  case None
  assume "quiet s s'"
  from quietD(11)[OF this, of a] None have "cancelCtxs s' a = None"
    by (simp add: node_quiet_def)
  with None show ?thesis by (simp add: active_def)
next
  case (Some x)
  assume "quiet s s'"
  from quietD(11)[OF this, of a] Some obtain y where "cancelCtxs s' a = Some y" "err y = err x"
    by (auto elim: node_quietD)
  with Some show ?thesis by (simp add: active_def)
qed

lemma kids_kidset: "set (kids s a) = (case cancelCtxs s a of None \<Rightarrow> {} | Some x \<Rightarrow> kidset x)"
  by (simp add: kids_def kidset_def split: option.splits)

lemma quiet_kids: "quiet s s' \<Longrightarrow> set (kids s' a) \<subseteq> set (kids s a)"
proof (cases "cancelCtxs s a")
  case None
  assume "quiet s s'"
  from quietD(11)[OF this, of a] None have "cancelCtxs s' a = None"
    by (simp add: node_quiet_def)
  with None show ?thesis by (simp add: kids_kidset)
next
  case (Some x)
  assume "quiet s s'"
  from quietD(11)[OF this, of a] Some obtain y where "cancelCtxs s' a = Some y"
    "kidset y \<subseteq> kidset x"
    by (auto elim: node_quietD)
  with Some show ?thesis by (simp add: kids_kidset)
qed

lemma ctx_ok_cong: "(\<And>p. valid_ptr s' p = valid_ptr s p) \<Longrightarrow> ctx_ok s' c = ctx_ok s c"
proof (induction c)
  case (Foreign dl ch e vf af)
  have "(cancelCtxs s' p \<noteq> None) = (cancelCtxs s p \<noteq> None)" for p
    using Foreign[of "CancelCtxPtr p"] by simp
  then show ?case by (simp split: any.splits)
qed simp_all

lemma quiet_ctx_ok: "quiet s s' \<Longrightarrow> ctx_ok s' c = ctx_ok s c"
  by (rule ctx_ok_cong) (rule quiet_valid_ptr)

lemma quiet_settled:
  assumes q: "quiet s s'" and st: "settled s a e c"
  shows "settled s' a e c"
proof -
  from st obtain x where x: "cancelCtxs s a = Some x" "err x = Some e" "cause x = Some c"
    "children x = None"
    "done_c x = Some Closedchan \<or> (done_c x = Some (MadeBy a) \<and> MadeBy a \<in> closed s)"
    and lt: "a < nxt s"
    unfolding settled_def by (auto split: option.splits)
  from quietD(11)[OF q, of a] x(1) obtain y where y: "cancelCtxs s' a = Some y"
    "err y = err x" "cause y = cause x"
    "done_c y = done_c x \<or> (done_c x = None \<and> done_c y = Some (MadeBy a))"
    "children x = None \<longrightarrow> children y = None"
    by (auto elim: node_quietD)
  have "done_c y = done_c x" using y(4) x(5) by auto
  then show ?thesis
    unfolding settled_def using x y lt quietD(1,5)[OF q] by simp
qed

lemma heap_ok_quiet:
  assumes ok: "heap_ok s" and q: "quiet s s'" and t: "timers s' = timers s"
    "timerCtxs s' = timerCtxs s"
  shows "heap_ok s'"
  unfolding heap_ok_def
proof (intro conjI allI impI ballI)
  fix b assume "cancelCtxs s' b \<noteq> None"
  then have "cancelCtxs s b \<noteq> None" using node_quiet_None[OF quietD(11)[OF q, of b]] by simp
  then show "b < nxt s'" using heap_okD(1)[OF ok] quietD(1)[OF q] by simp
next
  fix b k assume "k \<in> set (kids s' b)"
  then have "k \<in> set (kids s b)" using quiet_kids[OF q] by blast
  then show "b < addr_of k" "valid_ptr s' k"
    using heap_okD(2)[OF ok, of k b] by (simp_all add: quiet_valid_ptr[OF q])
next
  fix b y assume y: "cancelCtxs s' b = Some y" and ey: "err y = None"
  from node_quiet_None[OF quietD(11)[OF q, of b]] y obtain x where x: "cancelCtxs s b = Some x"
    by auto
  from quietD(11)[OF q, of b] x y have xy: "err y = err x"
    "done_c y = done_c x \<or> (done_c x = None \<and> done_c y = Some (MadeBy b))"
    by (auto elim: node_quietD)
  have "err x = None" using ey xy(1) by simp
  from heap_okD(3)[OF ok x this]
  have hx: "done_c x = None \<or> done_c x = Some (MadeBy b)" "MadeBy b \<notin> closed s" by simp_all
  show "done_c y = None \<or> done_c y = Some (MadeBy b)" using hx(1) xy(2) by auto
  show "MadeBy b \<notin> closed s'" using hx(2) quietD(5)[OF q] by simp
next
  fix b y assume y: "cancelCtxs s' b = Some y" and ey: "err y \<noteq> None"
  from node_quiet_None[OF quietD(11)[OF q, of b]] y obtain x where x: "cancelCtxs s b = Some x"
    by auto
  from quietD(11)[OF q, of b] x y have xy: "err y = err x"
    "done_c y = done_c x \<or> (done_c x = None \<and> done_c y = Some (MadeBy b))"
    by (auto elim: node_quietD)
  have "err x \<noteq> None" using ey xy(1) by simp
  from heap_okD(4)[OF ok x this]
  have hx: "done_c x = Some Closedchan \<or> (done_c x = Some (MadeBy b) \<and> MadeBy b \<in> closed s)" .
  then have "done_c y = done_c x" using xy(2) by auto
  then show "done_c y = Some Closedchan \<or> (done_c y = Some (MadeBy b) \<and> MadeBy b \<in> closed s')"
    using hx quietD(5)[OF q] by simp
next
  fix tm t0 assume "timers s' tm = Some t0"
  then show "\<exists>t'. timerCtxs s' (target t0) = Some t' \<and> timer t' = Some tm"
    using heap_okD(5)[OF ok, of tm t0] t by simp
qed

lemma made_done_quiet:
  assumes ok: "heap_ok s" and x: "cancelCtxs s a = Some x" "done_c x = None"
    and nh: "a \<notin> set (held s)"
  shows "quiet s (made_done a s)"
proof -
  note fl = made_done_fields[OF nh]
  have "err x = None"
  proof (rule ccontr)
    assume "err x \<noteq> None"
    from heap_okD(4)[OF ok x(1) this] x(2) show False by simp
  qed
  from heap_okD(3)[OF ok x(1) this] have nc: "MadeBy a \<notin> closed s" by simp
  show ?thesis
    unfolding quiet_def
  proof (intro conjI allI)
    show "node_quiet b (cancelCtxs s b) (cancelCtxs (made_done a s) b)" for b
      using x by (cases "b = a") (simp_all add: fl node_quiet_def kidset_def)
    show "closed (made_done a s) = closed s" using nc by (simp add: fl)
  qed (simp_all add: fl)
qed

lemma lazy_quiet:
  assumes "heap_ok s" "held s = []" "lazy s s'"
  shows "quiet s s' \<and> heap_ok s'"
proof -
  from assms(3) consider "s' = s"
    | a x where "cancelCtxs s a = Some x" "done_c x = None" "s' = made_done a s"
    unfolding lazy_def by blast
  then show ?thesis
  proof cases
    case 1
    then show ?thesis using assms(1) by simp
  next
    case 2
    have q: "quiet s s'" using made_done_quiet[OF assms(1) 2(1,2)] assms(2) 2(3) by simp
    moreover have "heap_ok s'"
      by (rule heap_ok_quiet[OF assms(1) q]) (simp_all add: 2(3) made_done_fields assms(2))
    ultimately show ?thesis by simp
  qed
qed

lemma Done_lazy:
  assumes "held s = []" "ctx_ok s c"
  shows "\<exists>d s'. Done c s = Inr (d, s') \<and> lazy s s'"
  using assms
proof (induction c)
  case (Ptr q)
  then obtain x where x: "cancelCtxs s (addr_of q) = Some x" by (cases q) auto
  show ?case
  proof (cases "done_c x")
    case None
    then show ?thesis using x Ptr(1) cancelCtx_Done_slow[OF x None]
      by (auto simp: lazy_def)
  next
    case (Some d)
    then show ?thesis using x cancelCtx_Done_fast[OF x Some] by (simp add: lazy_def)
  qed
next
  case NilContext
  then show ?case by simp
next
  case backgroundCtx
  show ?case by (simp add: lazy_def)
next
  case todoCtx
  show ?case by (simp add: lazy_def)
next
  case (valueCtx c k v)
  then show ?case by simp
next
  case (withoutCancelCtx c)
  show ?case by (simp add: lazy_def)
next
  case (stopCtx c h)
  then show ?case by simp
next
  case (Foreign dl ch e vf af)
  show ?case by (simp add: lazy_def)
qed

lemma key_lookup_ok:
  "ctx_ok s c \<Longrightarrow> \<exists>v. key_lookup c = Inr v \<and> (\<forall>p. v = CancelCtxRef p \<longrightarrow> cancelCtxs s p \<noteq> None)"
proof (induction c)
  case (Ptr q)
  then show ?case by (cases q) simp_all
next
  case (Foreign dl ch e vf af)
  then show ?case by (cases "vf CancelCtxKey") simp_all
qed simp_all

lemma lazy_node_None: "lazy s s' \<Longrightarrow> held s = [] \<Longrightarrow> (cancelCtxs s' p = None) = (cancelCtxs s p = None)"
  unfolding lazy_def by (auto simp: made_done_fields split: if_splits)

lemma parentCancelCtx_ok:
  assumes h: "held s = []" and c: "ctx_ok s parent"
  shows "\<exists>r s'. parentCancelCtx n parent s = Inr (r, s') \<and> lazy s s' \<and>
           (\<forall>p. r = Some p \<longrightarrow> cancelCtxs s' p \<noteq> None)"
proof -
  from Done_lazy[OF h c] obtain d s1 where d: "Done parent s = Inr (d, s1)" "lazy s s1" by blast
  from key_lookup_ok[OF c] obtain v where v: "key_lookup parent = Inr v"
    "\<forall>p. v = CancelCtxRef p \<longrightarrow> cancelCtxs s p \<noteq> None" by blast
  show ?thesis
  proof (cases "d = Some Closedchan \<or> d = None")
    case True
    then show ?thesis using d by (auto simp: parentCancelCtx_def)
  next
    case False
    show ?thesis
    proof (cases v)
      case (CancelCtxRef p)
      then have "cancelCtxs s1 p \<noteq> None" using v(2) lazy_node_None[OF d(2) h] by simp
      then obtain x where x: "cancelCtxs s1 p = Some x" by auto
      then show ?thesis using d False v(1) CancelCtxRef
        by (auto simp: parentCancelCtx_def Value_key load_def)
    qed (use d False v(1) in \<open>auto simp: parentCancelCtx_def Value_key\<close>)
  qed
qed

lemma removeChild_other:
  assumes "\<And>p h. parent \<noteq> stopCtx p h"
  shows "removeChild n parent child s =
     andThen (parentCancelCtx n parent s) (\<lambda>(r, s1).
       case r of None \<Rightarrow> Inr s1 | Some p \<Rightarrow> drop_child p child s1)"
proof (cases parent)
  case (stopCtx p h)
  with assms show ?thesis by blast
qed (simp_all add: removeChild_def drop_child_def cong: option.case_cong)

lemma drop_child_ok:
  assumes ok: "heap_ok s" and h: "held s = []" and x: "cancelCtxs s p = Some x"
  shows "\<exists>s'. drop_child p child s = Inr s' \<and> quiet s s' \<and> heap_ok s' \<and>
           timers s' = timers s \<and> timerCtxs s' = timerCtxs s \<and>
           afterFuncCtxs s' = afterFuncCtxs s \<and> registered s' = registered s \<and>
           cancelCtxs s' = (cancelCtxs s)(p \<mapsto>
              x\<lparr>children := map_option (removeAll child) (children x)\<rparr>)"
proof -
  let ?s' = "s\<lparr>peak := max (peak s) (Suc 0),
               cancelCtxs := (cancelCtxs s)(p \<mapsto>
                 x\<lparr>children := map_option (removeAll child) (children x)\<rparr>)\<rparr>"
  have res: "drop_child p child s = Inr ?s'"
  proof (cases "children x")
    case None
    have "x\<lparr>children := None\<rparr> = x" using None by simp
    then have "(cancelCtxs s)(p \<mapsto> x\<lparr>children := None\<rparr>) = cancelCtxs s"
      using x by (simp add: fun_upd_idem)
    then show ?thesis using x h None
      by (simp add: drop_child_def lock_def load_def unlock_def)
  next
    case (Some cs)
    then show ?thesis using x h
      by (simp add: drop_child_def lock_def load_def unlock_def modify_def)
  qed
  have q: "quiet s ?s'"
    unfolding quiet_def
  proof (intro conjI allI)
    show "node_quiet b (cancelCtxs s b) (cancelCtxs ?s' b)" for b
      using x by (cases "b = p") (auto simp: node_quiet_def kidset_def split: option.splits)
  qed simp_all
  have "heap_ok ?s'" by (rule heap_ok_quiet[OF ok q]) simp_all
  then show ?thesis using res q by simp
qed

lemma lazy_fields:
  assumes "lazy s s'" "held s = []"
  shows "timers s' = timers s" "timerCtxs s' = timerCtxs s" "afterFuncCtxs s' = afterFuncCtxs s"
    "registered s' = registered s" "held s' = []"
  using assms unfolding lazy_def by (auto simp: made_done_fields)

lemma removeChild_ok:
  assumes ok: "heap_ok s" and h: "held s = []" and c: "ctx_ok s parent"
  shows "\<exists>s'. removeChild n parent child s = Inr s' \<and> quiet s s' \<and> heap_ok s' \<and>
           timers s' = timers s \<and> timerCtxs s' = timerCtxs s \<and>
           afterFuncCtxs s' = afterFuncCtxs s"
proof (cases "\<exists>p h. parent = stopCtx p h")
  case True
  then obtain p hd where p: "parent = stopCtx p hd" by blast
  let ?s' = "s\<lparr>registered := (registered s)(hd := None)\<rparr>"
  have "removeChild n parent child s = Inr ?s'" by (simp add: p removeChild_def)
  moreover have "quiet s ?s'" by (simp add: quiet_def map_le_def)
  moreover have "heap_ok ?s'" using ok heap_ok_cong[of ?s' s] by simp
  ultimately show ?thesis by simp
next
  case False
  then have np: "\<And>p h. parent \<noteq> stopCtx p h" by blast
  from parentCancelCtx_ok[OF h c, of n] obtain r s1 where
    r: "parentCancelCtx n parent s = Inr (r, s1)" "lazy s s1"
    "\<forall>p. r = Some p \<longrightarrow> cancelCtxs s1 p \<noteq> None" by blast
  from lazy_quiet[OF ok h r(2)] have q1: "quiet s s1" and ok1: "heap_ok s1" by simp_all
  note f1 = lazy_fields[OF r(2) h]
  show ?thesis
  proof (cases r)
    case None
    then show ?thesis using r(1) q1 ok1 f1 by (simp add: removeChild_other[OF np])
  next
    case (Some p)
    then obtain x where x: "cancelCtxs s1 p = Some x" using r(3) by auto
    from drop_child_ok[OF ok1 f1(5) x, of child] obtain s2 where
      s2: "drop_child p child s1 = Inr s2" "quiet s1 s2" "heap_ok s2"
      "timers s2 = timers s1" "timerCtxs s2 = timerCtxs s1"
      "afterFuncCtxs s2 = afterFuncCtxs s1"
      by blast
    have "removeChild n parent child s = Inr s2"
      using r(1) Some s2(1) by (simp add: removeChild_other[OF np])
    moreover have "quiet s s2" by (rule quiet_trans[OF q1 s2(2)])
    ultimately show ?thesis using s2(3-6) f1 by simp
  qed
qed

lemma casc_ctx_ok: "casc e c s s' \<Longrightarrow> ctx_ok s' x = ctx_ok s x"
  by (rule ctx_ok_cong) (rule casc_valid_ptr)

lemma node_step_Context:
  "node_step e c old (Some y) \<Longrightarrow> \<exists>x. old = Some x \<and> Context y = Context x"
  by (auto simp: node_step_def cancelled_node_def)

lemma casc_wf:
  assumes w: "store_ok s" and c: "casc e c s s'" and ok: "heap_ok s'"
  shows "store_ok s'"
  unfolding store_ok_def
proof (intro conjI allI impI)
  show "heap_ok s'" by (rule ok)
  show "held s' = []" using w cascD(1)[OF c] by (simp add: store_ok_def same_frame_def)
  fix a y assume "cancelCtxs s' a = Some y"
  with node_step_Context[of e c "cancelCtxs s a" y] cascD(2)[OF c, of a]
  obtain x where "cancelCtxs s a = Some x" "Context y = Context x" by auto
  then show "ctx_ok s' (Context y)" using w by (simp add: casc_ctx_ok[OF c] store_ok_def)
qed

lemma quiet_wf:
  assumes w: "store_ok s" and q: "quiet s s'" and ok: "heap_ok s'"
  shows "store_ok s'"
  unfolding store_ok_def
proof (intro conjI allI impI)
  show "heap_ok s'" by (rule ok)
  show "held s' = []" using w quietD(2)[OF q] by (simp add: store_ok_def)
  fix a y assume y: "cancelCtxs s' a = Some y"
  from node_quiet_None[OF quietD(11)[OF q, of a]] y obtain x where x: "cancelCtxs s a = Some x"
    by auto
  from quietD(11)[OF q, of a] x y have "Context y = Context x" by (auto elim: node_quietD)
  then show "ctx_ok s' (Context y)" using w x by (simp add: quiet_ctx_ok[OF q] store_ok_def)
qed

lemma andThen_assoc: "andThen (andThen m k1) k2 = andThen m (\<lambda>v. andThen (k1 v) k2)"
  by (cases m) simp_all

lemma cancelCtx_cancel_done_any:
  assumes "cancelCtxs s a = Some x" "err x \<noteq> None" "a \<notin> set (held s)"
  shows "cancelCtx_cancel rec n a rfp (Some e) cause0 s =
           Inr (s\<lparr>peak := max (peak s) (Suc (length (held s)))\<rparr>)"
  using assms by (simp add: cancelCtx_cancel_def lock_def load_def unlock_def)

lemma cancelCtx_cancel_rfp:
  assumes "cancelCtxs s a = Some x" "err x = None" "a \<notin> set (held s)"
    and "\<And>d. done_c x = Some d \<Longrightarrow> \<not> is_closed s d"
  shows "cancelCtx_cancel rec n a True (Some e) cause0 s =
           andThen (cancelCtx_cancel rec n a False (Some e) cause0 s)
             (removeChild n (Context x) (CancelCtxPtr a))"
  by (simp add: cancelCtx_cancel_active[OF assms] andThen_assoc)

lemma stop_timer_frame:
  "stop_timer a s = Inr s' \<Longrightarrow> closed s' = closed s \<and> registered s' = registered s"
  by (auto simp: stop_timer_def lock_def unlock_def split: if_splits option.splits)

lemma run_once_frame:
  "run_once a s = Inr s' \<Longrightarrow> closed s' = closed s \<and> registered s' = registered s"
  by (auto simp: run_once_def split: if_splits option.splits)

lemma casc_quiet:
  assumes c: "casc e c s s'" and n: "cancelCtxs s' = cancelCtxs s" and cl: "closed s' = closed s"
    and r: "registered s' = registered s"
  shows "quiet s s'"
  unfolding quiet_def
proof (intro conjI allI)
  show "timer_step (timerCtxs s a) (timerCtxs s' a)" for a by (rule cascD(4)[OF c])
  show "timers s' \<subseteq>\<^sub>m timers s" by (rule cascD(5)[OF c])
  show "once_step (afterFuncCtxs s a) (afterFuncCtxs s' a)" for a by (rule cascD(6)[OF c])
qed (use cascD(1)[OF c] n cl r in \<open>simp_all add: same_frame_def\<close>)

text \<open>A cancel call between two operations returns: a cascade, then steps that cancel
  nothing (the node is removed from its parent, its timer is stopped).\<close>

lemma cancel_top:
  assumes w: "store_ok s" and v: "valid_ptr s p" and fuel: "nxt s \<le> n + addr_of p"
  shows "\<exists>s1 s'. cancel n p rfp (Some e) cause0 s = Inr s' \<and>
           casc e (eff_cause e cause0) s s1 \<and> heap_ok s1 \<and> quiet s1 s' \<and> store_ok s' \<and>
           \<not> active s' (addr_of p) \<and> stopped s' p"
proof (cases rfp)
  case False
  have ok: "heap_ok s" and h: "held s = []" using w by (simp_all add: store_ok_def)
  from cancel_cascade[OF ok v _ fuel, of e cause0] h
  obtain s' where s': "cancel n p False (Some e) cause0 s = Inr s'"
    "casc e (eff_cause e cause0) s s'" "heap_ok s'" "\<not> active s' (addr_of p)" "stopped s' p"
    by auto
  have w': "store_ok s'" by (rule casc_wf[OF w s'(2,3)])
  show ?thesis
  proof (intro exI conjI)
    show "cancel n p rfp (Some e) cause0 s = Inr s'" using False s'(1) by simp
    show "casc e (eff_cause e cause0) s s'" by (rule s'(2))
    show "quiet s' s'" by simp
  qed (rule s' w')+
next
  case True
  let ?a = "addr_of p"
  let ?c = "eff_cause e cause0"
  have ok: "heap_ok s" and h: "held s = []" using w by (simp_all add: store_ok_def)
  from v obtain x where x: "cancelCtxs s ?a = Some x" by (cases p) auto
  have cx: "ctx_ok s (Context x)" using w x by (simp add: store_ok_def)
  from heap_okD(1)[OF ok, of ?a] x fuel obtain m where n: "n = Suc m" by (cases n) auto
  from cancel_cascade[OF ok _ _ , of "CancelCtxPtr ?a" n e cause0] x h fuel
  obtain s1 where s1: "cancelCtx_cancel (cancel m) (Suc m) ?a False (Some e) cause0 s = Inr s1"
    "casc e ?c s s1" "heap_ok s1" "\<not> active s1 ?a"
    by (auto simp: n)
  have w1: "store_ok s1" by (rule casc_wf[OF w s1(2,3)])
  have h1: "held s1 = []" using w1 by (simp add: store_ok_def)
  have cx1: "ctx_ok s1 (Context x)" using cx by (simp add: casc_ctx_ok[OF s1(2)])
  from node_step_None[OF cascD(2)[OF s1(2), of ?a]] x
  obtain y where y: "cancelCtxs s1 ?a = Some y" by auto
  with node_step_Context[of e ?c "cancelCtxs s ?a" y] cascD(2)[OF s1(2), of ?a] x
  have cy: "Context y = Context x" by auto
  \<comment> \<open>the removal from the parent, when the node was not canceled before\<close>
  have rm: "\<exists>s2. removeChild (Suc m) (Context x) p s1 = Inr s2 \<and> quiet s1 s2 \<and> heap_ok s2 \<and>
      timerCtxs s2 = timerCtxs s1 \<and> afterFuncCtxs s2 = afterFuncCtxs s1"
    using removeChild_ok[OF s1(3) h1 cx1, of "Suc m" p] by blast
  then obtain s2 where s2: "removeChild (Suc m) (Context x) p s1 = Inr s2" "quiet s1 s2"
    "heap_ok s2" "timerCtxs s2 = timerCtxs s1" "afterFuncCtxs s2 = afterFuncCtxs s1"
    by blast
  have w2: "store_ok s2" by (rule quiet_wf[OF w1 s2(2,3)])
  have na2: "\<not> active s2 ?a" using s1(4) by (simp add: quiet_active[OF s2(2)])
  have nh: "?a \<notin> set (held s)" using h by simp
  show ?thesis
  proof (cases p)
    case (CancelCtxPtr a)
    show ?thesis
    proof (cases "err x = None")
      case False
      have "cancel n p rfp (Some e) cause0 s = Inr s1"
        using s1(1) x False nh CancelCtxPtr n
        by (simp add: cancelCtx_cancel_done_any)
      then show ?thesis using s1 w1 CancelCtxPtr
        by (intro exI[of _ s1] conjI) simp_all
    next
      case act: True
      from heap_okD(3)[OF ok x act]
      have open_d: "\<And>d. done_c x = Some d \<Longrightarrow> \<not> is_closed s d"
        by (auto simp: is_closed_def)
      have "cancel n p rfp (Some e) cause0 s = Inr s2"
        using cancelCtx_cancel_rfp[OF x act nh open_d, of "cancel m" "Suc m" e cause0]
          s1(1) s2(1) CancelCtxPtr n True
        by simp
      then show ?thesis using s1(2,3) s2(2) w2 na2 CancelCtxPtr
        by (intro exI[of _ s1] exI[of _ s2] conjI) simp_all
    qed
  next
    case (TimerCtxPtr a)
    then obtain t where t: "timerCtxs s2 a = Some t"
      using v casc_valid_ptr[OF s1(2), of p] s2(4) by auto
    have nh2: "a \<notin> set (held s2)" using w2 by (simp add: store_ok_def)
    from stop_timer_casc[OF s2(3) t nh2, of e ?c]
    obtain s3 where s3: "stop_timer a s2 = Inr s3" "casc e ?c s2 s3" "heap_ok s3"
      "timer_cleared s3 a" "cancelCtxs s3 = cancelCtxs s2"
      by blast
    have q3: "quiet s2 s3"
      using casc_quiet[OF s3(2,5)] stop_timer_frame[OF s3(1)] by simp
    have res: "cancel n p rfp (Some e) cause0 s = Inr s3"
      using s1(1) s2(1) s3(1) y cy TimerCtxPtr n True
      by (simp add: timerCtx_cancel_eq load_def)
    have "quiet s1 s3" by (rule quiet_trans[OF s2(2) q3])
    moreover have "store_ok s3" by (rule quiet_wf[OF w2 q3 s3(3)])
    moreover have "\<not> active s3 ?a" using na2 by (simp add: quiet_active[OF q3])
    ultimately show ?thesis using res s1(2,3) s3(4) TimerCtxPtr
      by (intro exI[of _ s1] exI[of _ s3] conjI) simp_all
  next
    case (AfterFuncCtxPtr a)
    then obtain f where f: "afterFuncCtxs s2 a = Some f"
      using v casc_valid_ptr[OF s1(2), of p] s2(5) by auto
    from run_once_casc[OF s2(3) f, of e ?c]
    obtain s3 where s3: "run_once a s2 = Inr s3" "casc e ?c s2 s3" "heap_ok s3"
      "cancelCtxs s3 = cancelCtxs s2"
      by blast
    have q3: "quiet s2 s3"
      using casc_quiet[OF s3(2,4)] run_once_frame[OF s3(1)] by simp
    have res: "cancel n p rfp (Some e) cause0 s = Inr s3"
      using s1(1) s2(1) s3(1) y cy AfterFuncCtxPtr n True
      by (simp add: afterFuncCtx_cancel_eq load_def)
    have "quiet s1 s3" by (rule quiet_trans[OF s2(2) q3])
    moreover have "store_ok s3" by (rule quiet_wf[OF w2 q3 s3(3)])
    moreover have "\<not> active s3 ?a" using na2 by (simp add: quiet_active[OF q3])
    ultimately show ?thesis using res s1(2,3) AfterFuncCtxPtr
      by (intro exI[of _ s1] exI[of _ s3] conjI) simp_all
  qed
qed

lemma tree_okD:
  assumes "tree_ok s"
  shows "store_ok s" "heap_ok s" "held s = []"
    and "cancelCtxs s a = Some x \<Longrightarrow> err x \<noteq> None \<Longrightarrow> children x = None"
    and "cancelCtxs s a = Some x \<Longrightarrow> err x \<noteq> None \<Longrightarrow> cause x \<noteq> None"
    and "k \<in> set (kids s a) \<Longrightarrow> active s (addr_of k)"
  using assms unfolding tree_ok_def store_ok_def by blast+

lemma tree_ok_kids_active:
  assumes t: "tree_ok s" and k: "k \<in> set (kids s a)"
  shows "active s a"
proof (rule ccontr)
  assume na: "\<not> active s a"
  from k obtain x where x: "cancelCtxs s a = Some x" by (cases "cancelCtxs s a") (auto simp: kids_def)
  with na have "err x \<noteq> None" by (simp add: active_def)
  from tree_okD(4)[OF t x this] k x show False by (simp add: kids_def)
qed

lemma casc_changed:
  assumes c: "casc e c s s'" and a: "active s a" "\<not> active s' a"
  shows "\<exists>x. cancelCtxs s a = Some x \<and> err x = None \<and> cancelCtxs s' a = Some (cancelled_node e c x)"
  using cascD(2)[OF c, of a] a by (auto simp: node_step_def active_def)

lemma cancelled_settled:
  assumes ok: "heap_ok s'" and n: "cancelCtxs s' a = Some (cancelled_node e c x)"
  shows "settled s' a e c"
proof -
  have "a < nxt s'" using heap_okD(1)[OF ok, of a] n by simp
  moreover have "err (cancelled_node e c x) \<noteq> None" by (simp add: cancelled_node_def)
  from heap_okD(4)[OF ok n this]
  have "done_c (cancelled_node e c x) = Some Closedchan \<or>
        (done_c (cancelled_node e c x) = Some (MadeBy a) \<and> MadeBy a \<in> closed s')" .
  ultimately show ?thesis using n by (simp add: settled_def cancelled_node_def)
qed

lemma casc_desc:
  assumes t: "tree_ok s" and c: "casc e c s s'" and ok: "heap_ok s'"
    and a: "active s a" "\<not> active s' a" and d: "desc s a k"
  shows "active s (addr_of k) \<and> \<not> active s' (addr_of k) \<and> settled s' (addr_of k) e c \<and> stopped s' k"
  using d
proof (induction rule: desc.induct)
  case (child k)
  from a have ch: "cancelCtxs s' a \<noteq> cancelCtxs s a"
    by (auto simp: active_def)
  with cascD(3)[OF c] child have k: "\<not> active s' (addr_of k)" "stopped s' k"
    unfolding children_done_def by blast+
  have ak: "active s (addr_of k)" by (rule tree_okD(6)[OF t child])
  from casc_changed[OF c ak k(1)] cancelled_settled[OF ok]
  have "settled s' (addr_of k) e c" by blast
  then show ?case using k ak by simp
next
  case (grandchild k k')
  then have ak: "active s (addr_of k)" "\<not> active s' (addr_of k)" by simp_all
  from ak have ch: "cancelCtxs s' (addr_of k) \<noteq> cancelCtxs s (addr_of k)"
    by (auto simp: active_def)
  with cascD(3)[OF c] grandchild(2) have k: "\<not> active s' (addr_of k')" "stopped s' k'"
    unfolding children_done_def by blast+
  have ak': "active s (addr_of k')" by (rule tree_okD(6)[OF t grandchild(2)])
  from casc_changed[OF c ak' k(1)] cancelled_settled[OF ok]
  have "settled s' (addr_of k') e c" by blast
  then show ?case using k ak' by simp
qed

lemma quiet_stopped: "quiet s s' \<Longrightarrow> stopped s k \<Longrightarrow> stopped s' k"
proof (cases k)
  case (TimerCtxPtr a)
  assume q: "quiet s s'" and st: "stopped s k"
  from st TimerCtxPtr have tc: "timer_cleared s a" by simp
  have "\<And>tm t. timers s' tm = Some t \<Longrightarrow> target t \<noteq> a"
  proof -
    fix tm t assume "timers s' tm = Some t"
    then have "timers s tm = Some t" using quietD(13)[OF q] by (auto simp: map_le_def dom_def)
    then show "target t \<noteq> a" using tc unfolding timer_cleared_def by blast
  qed
  moreover have "case timerCtxs s' a of None \<Rightarrow> True | Some t \<Rightarrow> timer t = None"
    using quietD(12)[OF q, of a] tc unfolding timer_cleared_def timer_step_def
    by (auto split: option.splits)
  ultimately have "timer_cleared s' a" unfolding timer_cleared_def by blast
  then show ?thesis using TimerCtxPtr by simp
qed simp_all

section \<open>What is settled stays settled\<close>

lemma keeps_refl [simp]: "keeps s s"
  by (simp add: keeps_def)

lemma keeps_trans: "keeps s s1 \<Longrightarrow> keeps s1 s2 \<Longrightarrow> keeps s s2"
  by (simp add: keeps_def)

lemma keepsI:
  assumes n: "nxt s \<le> nxt s'"
    and nd: "\<And>a x. cancelCtxs s a = Some x \<Longrightarrow> err x \<noteq> None \<Longrightarrow> children x = None \<Longrightarrow>
       done_c x \<noteq> None \<Longrightarrow>
       \<exists>y. cancelCtxs s' a = Some y \<and> err y = err x \<and> cause y = cause x \<and> children y = None \<and>
           done_c y = done_c x"
    and cl: "\<And>a x. cancelCtxs s a = Some x \<Longrightarrow> err x \<noteq> None \<Longrightarrow> done_c x = Some (MadeBy a) \<Longrightarrow>
       MadeBy a \<in> closed s \<Longrightarrow> MadeBy a \<in> closed s'"
  shows "keeps s s'"
  unfolding keeps_def
proof (intro allI impI)
  fix a e c assume st: "settled s a e c"
  then obtain x where x: "cancelCtxs s a = Some x" "err x = Some e" "cause x = Some c"
    "children x = None"
    "done_c x = Some Closedchan \<or> (done_c x = Some (MadeBy a) \<and> MadeBy a \<in> closed s)"
    and lt: "a < nxt s"
    unfolding settled_def by (auto split: option.splits)
  from nd[OF x(1) _ x(4)] x(2,5) obtain y where y: "cancelCtxs s' a = Some y" "err y = err x"
    "cause y = cause x" "children y = None" "done_c y = done_c x"
    by auto
  have "done_c y = Some Closedchan \<or> (done_c y = Some (MadeBy a) \<and> MadeBy a \<in> closed s')"
    using x(5) y(5) cl[OF x(1)] x(2) by auto
  then show "settled s' a e c"
    unfolding settled_def using y x(2,3) lt n by simp
qed

lemma keeps_same:
  assumes "cancelCtxs s' = cancelCtxs s" "closed s \<subseteq> closed s'" "nxt s \<le> nxt s'"
  shows "keeps s s'"
  by (rule keepsI) (use assms in auto)

lemma keeps_modify:
  assumes "\<And>x. cancelCtxs s a = Some x \<Longrightarrow> err x \<noteq> None \<Longrightarrow> children x = None \<Longrightarrow>
       done_c x \<noteq> None \<Longrightarrow>
       err (g x) = err x \<and> cause (g x) = cause x \<and> children (g x) = None \<and> done_c (g x) = done_c x"
  shows "keeps s (modify a g s)"
proof (rule keepsI)
  fix b x assume "cancelCtxs s b = Some x" "err x \<noteq> None" "children x = None" "done_c x \<noteq> None"
  then show "\<exists>y. cancelCtxs (modify a g s) b = Some y \<and> err y = err x \<and> cause y = cause x \<and>
      children y = None \<and> done_c y = done_c x"
    using assms[of x] by (cases "b = a") (simp_all add: modify_def)
qed (simp_all add: modify_def)

lemma casc_keeps_settled: "casc e c s s' \<Longrightarrow> keeps s s'"
proof (rule keepsI)
  assume c: "casc e c s s'"
  show "nxt s \<le> nxt s'" using cascD(1)[OF c] by (simp add: same_frame_def)
  fix a x assume x: "cancelCtxs s a = Some x" "err x \<noteq> None"
  then have "\<not> active s a" by (simp add: active_def)
  from casc_keeps[OF c this] x
  show "\<exists>y. cancelCtxs s' a = Some y \<and> err y = err x \<and> cause y = cause x \<and> children y = None \<and>
      done_c y = done_c x" if "children x = None" using that by simp
  show "MadeBy a \<in> closed s'" if "MadeBy a \<in> closed s"
    using that cascD(1)[OF c] by (auto simp: same_frame_def)
qed

lemma quiet_keeps: "quiet s s' \<Longrightarrow> keeps s s'"
  unfolding keeps_def using quiet_settled by blast

lemma andThen_InrE:
  assumes "andThen m k = Inr r"
  obtains v where "m = Inr v" "k v = Inr r"
  using assms by (cases m) simp_all

lemma lock_InrD:
  "lock a s = Inr s1 \<Longrightarrow>
   a \<notin> set (held s) \<and> s1 = s\<lparr>held := a # held s, peak := max (peak s) (Suc (length (held s)))\<rparr>"
  by (auto simp: lock_def split: if_splits)

lemma load_InrD: "load a s = Inr x \<Longrightarrow> cancelCtxs s a = Some x"
  by (auto simp: load_def split: option.splits)

lemma keeps_made_done:
  assumes x: "cancelCtxs s a = Some x" "done_c x = None" and nh: "a \<notin> set (held s)"
  shows "keeps s (made_done a s)"
proof (rule keepsI)
  note fl = made_done_fields[OF nh]
  show "nxt s \<le> nxt (made_done a s)" by (simp add: fl)
  fix b y assume y: "cancelCtxs s b = Some y" "err y \<noteq> None"
  show "\<exists>z. cancelCtxs (made_done a s) b = Some z \<and> err z = err y \<and> cause z = cause y \<and>
      children z = None \<and> done_c z = done_c y"
    if "children y = None" "done_c y \<noteq> None"
    using that y x by (cases "b = a") (simp_all add: fl)
  show "MadeBy b \<in> closed (made_done a s)" if "done_c y = Some (MadeBy b)" "MadeBy b \<in> closed s"
    using that y x by (cases "b = a") (simp_all add: fl)
qed

lemma cancelCtx_Done_cases:
  assumes "cancelCtx_Done a s = Inr (d, s')"
  shows "s' = s \<or> (\<exists>x. cancelCtxs s a = Some x \<and> done_c x = None \<and> a \<notin> set (held s) \<and>
           s' = made_done a s)"
proof -
  from assms obtain x where x: "cancelCtxs s a = Some x"
    by (auto simp: cancelCtx_Done_def elim!: andThen_InrE dest: load_InrD)
  show ?thesis
  proof (cases "done_c x")
    case None
    have nh: "a \<notin> set (held s)"
      using assms x None
      by (auto simp: cancelCtx_Done_def load_def lock_def split: if_splits)
    then show ?thesis using cancelCtx_Done_slow[OF x None nh] assms x None by simp
  next
    case (Some d0)
    then show ?thesis using cancelCtx_Done_fast[OF x Some] assms by simp
  qed
qed

lemma Done_cases:
  "Done c s = Inr (d, s') \<Longrightarrow>
   s' = s \<or> (\<exists>a x. cancelCtxs s a = Some x \<and> done_c x = None \<and> a \<notin> set (held s) \<and>
           s' = made_done a s)"
proof (induction c)
  case (Ptr q)
  then show ?case using cancelCtx_Done_cases[of "addr_of q" s d s'] by auto
qed auto

lemma Done_keeps: "Done c s = Inr (d, s') \<Longrightarrow> keeps s s'"
  using Done_cases[of c s d s'] keeps_made_done by auto

lemma cancelCtx_Err_same:
  "cancelCtx_Err a s = Inr (e, s') \<Longrightarrow>
   s' = s\<lparr>peak := max (peak s) (Suc (length (held s)))\<rparr> \<and>
   (\<exists>x. cancelCtxs s a = Some x \<and> e = err x)"
  by (auto simp: cancelCtx_Err_def lock_def load_def unlock_def
      elim!: andThen_InrE split: if_splits option.splits)

lemma Err_same:
  "Err c s = Inr (e, s') \<Longrightarrow> s' = s \<or> s' = s\<lparr>peak := max (peak s) (Suc (length (held s)))\<rparr>"
proof (induction c)
  case (Ptr q)
  then show ?case using cancelCtx_Err_same[of "addr_of q" s e s'] by auto
qed auto

lemma keeps_peak [simp]: "keeps s (s\<lparr>peak := pk\<rparr>)"
  by (rule keeps_same) simp_all

lemma Err_keeps: "Err c s = Inr (e, s') \<Longrightarrow> keeps s s'"
  using Err_same[of c s e s'] by auto

lemma Cause_same:
  "Cause n c s = Inr (e, s') \<Longrightarrow> s' = s \<or> s' = s\<lparr>peak := max (peak s) (Suc (length (held s)))\<rparr>"
  unfolding Cause_def
  by (elim andThen_InrE)
     (auto simp: lock_def load_def unlock_def dest!: Err_same elim!: andThen_InrE
        split: any.splits if_splits option.splits)

lemma Cause_keeps: "Cause n c s = Inr (e, s') \<Longrightarrow> keeps s s'"
  using Cause_same[of n c s e s'] by auto

lemma parentCancelCtx_keeps: "parentCancelCtx n parent s = Inr (r, s') \<Longrightarrow> keeps s s'"
  unfolding parentCancelCtx_def
  by (elim andThen_InrE)
     (auto dest!: Done_keeps elim!: andThen_InrE split: if_splits any.splits)

lemma drop_child_keeps: "drop_child p child s = Inr s' \<Longrightarrow> keeps s s'"
proof -
  assume a: "drop_child p child s = Inr s'"
  then obtain x where x: "cancelCtxs s p = Some x" and nh: "p \<notin> set (held s)"
    by (auto simp: drop_child_def lock_def load_def elim!: andThen_InrE
        split: if_splits option.splits)
  show ?thesis
  proof (cases "children x")
    case None
    then have "s' = s\<lparr>peak := max (peak s) (Suc (length (held s)))\<rparr>"
      using a x nh by (simp add: drop_child_def lock_def load_def unlock_def)
    then show ?thesis by simp
  next
    case (Some cs)
    let ?s1 = "s\<lparr>peak := max (peak s) (Suc (length (held s)))\<rparr>"
    have "s' = modify p (\<lambda>x. x\<lparr>children := Some (removeAll child cs)\<rparr>) ?s1"
      using a x nh Some by (simp add: drop_child_def lock_def load_def unlock_def modify_def)
    moreover have "keeps ?s1 (modify p (\<lambda>x. x\<lparr>children := Some (removeAll child cs)\<rparr>) ?s1)"
      by (rule keeps_modify) (use x Some in simp)
    ultimately show ?thesis using keeps_trans[OF keeps_peak] by simp
  qed
qed

lemma removeChild_keeps: "removeChild n parent child s = Inr s' \<Longrightarrow> keeps s s'"
proof (cases "\<exists>p h. parent = stopCtx p h")
  case True
  assume "removeChild n parent child s = Inr s'"
  with True have "\<exists>h. s' = s\<lparr>registered := (registered s)(h := None)\<rparr>"
    by (auto simp: removeChild_def)
  then show ?thesis by (auto intro: keeps_same)
next
  case False
  assume a: "removeChild n parent child s = Inr s'"
  from False have "\<And>p h. parent \<noteq> stopCtx p h" by blast
  from a[unfolded removeChild_other[OF this]]
  show ?thesis
    by (elim andThen_InrE)
       (auto dest!: parentCancelCtx_keeps drop_child_keeps intro: keeps_trans
          split: option.splits)
qed

lemma stop_timer_keeps: "stop_timer a s = Inr s' \<Longrightarrow> keeps s s'"
  by (rule keeps_same)
     (auto simp: stop_timer_def lock_def unlock_def elim!: andThen_InrE
        split: if_splits option.splits)

lemma run_once_keeps: "run_once a s = Inr s' \<Longrightarrow> keeps s s'"
  by (rule keeps_same) (auto simp: run_once_def split: if_splits option.splits)

lemma forEach_keeps:
  assumes "\<And>x s s'. x \<in> set xs \<Longrightarrow> g x s = Inr s' \<Longrightarrow> keeps s s'"
  shows "forEach g xs s = Inr s' \<Longrightarrow> keeps s s'"
  using assms
proof (induction xs arbitrary: s)
  case Nil
  then show ?case by simp
next
  case (Cons x xs)
  from Cons.prems(1) obtain s1 where s1: "g x s = Inr s1" "forEach g xs s1 = Inr s'"
    by (auto elim: andThen_InrE)
  have "keeps s s1" using Cons.prems(2)[of x s s1] s1(1) by simp
  moreover have "keeps s1 s'"
  proof (rule Cons.IH[OF s1(2)])
    fix y t t' assume "y \<in> set xs" "g y t = Inr t'"
    then show "keeps t t'" using Cons.prems(2)[of y t t'] by simp
  qed
  ultimately show ?case by (rule keeps_trans)
qed

lemma keeps_begin_cancel:
  assumes "cancelCtxs s a = Some x" "err x = None"
  shows "keeps s (begin_cancel a x e c s)"
proof (rule keepsI)
  note nd = begin_cancel_node[OF assms(1), of e c]
  note fl = begin_cancel_fields[of a x e c s]
  show "nxt s \<le> nxt (begin_cancel a x e c s)" by (simp add: fl)
  fix b y assume y: "cancelCtxs s b = Some y" "err y \<noteq> None"
  then have ba: "b \<noteq> a" using assms by auto
  show "\<exists>z. cancelCtxs (begin_cancel a x e c s) b = Some z \<and> err z = err y \<and> cause z = cause y \<and>
      children z = None \<and> done_c z = done_c y" if "children y = None"
    using that y ba by (simp add: nd)
  show "MadeBy b \<in> closed (begin_cancel a x e c s)" if "MadeBy b \<in> closed s"
    using that by (simp add: fl split: option.splits)
qed

lemma keeps_finish_cancel: "keeps s (finish_cancel a s)"
proof (rule keepsI)
  note nd = finish_cancel_node[of a s]
  note fl = finish_cancel_fields[of a s]
  show "nxt s \<le> nxt (finish_cancel a s)" by (simp add: fl)
  fix b y assume y: "cancelCtxs s b = Some y"
  show "\<exists>z. cancelCtxs (finish_cancel a s) b = Some z \<and> err z = err y \<and> cause z = cause y \<and>
      children z = None \<and> done_c z = done_c y" if "children y = None"
    using that y by (cases "b = a") (simp_all add: nd)
  show "MadeBy b \<in> closed (finish_cancel a s)" if "MadeBy b \<in> closed s"
    using that by (simp add: fl)
qed

lemma cancelCtx_cancel_cases:
  assumes "cancelCtx_cancel rec n a rfp err0 cause0 s = Inr s'"
  obtains x e where "err0 = Some e" "cancelCtxs s a = Some x" "a \<notin> set (held s)"
    "err x \<noteq> None \<or> (\<forall>d. done_c x = Some d \<longrightarrow> \<not> is_closed s d)"
proof -
  from assms obtain e where e: "err0 = Some e"
    by (cases err0) (simp_all add: cancelCtx_cancel_def)
  from assms e obtain x where x: "cancelCtxs s a = Some x" and nh: "a \<notin> set (held s)"
    by (auto simp: cancelCtx_cancel_def Let_def lock_def load_def elim!: andThen_InrE
        split: if_splits option.splits)
  have "\<not> is_closed s d" if "err x = None" "done_c x = Some d" for d
    using assms e x nh that
    by (auto simp: cancelCtx_cancel_def Let_def lock_def load_def close_chan_def modify_def
        is_closed_def split: if_splits)
  then show ?thesis using that[OF e x nh] by blast
qed

lemma cancelCtx_cancel_keeps:
  assumes rec: "\<And>k r e c s s'. rec k r e c s = Inr s' \<Longrightarrow> keeps s s'"
    and a: "cancelCtx_cancel rec n a rfp err0 cause0 s = Inr s'"
  shows "keeps s s'"
proof -
  from a obtain x e where x: "err0 = Some e" "cancelCtxs s a = Some x" "a \<notin> set (held s)"
    "err x \<noteq> None \<or> (\<forall>d. done_c x = Some d \<longrightarrow> \<not> is_closed s d)"
    by (rule cancelCtx_cancel_cases)
  show ?thesis
  proof (cases "err x = None")
    case False
    have "s' = s\<lparr>peak := max (peak s) (Suc (length (held s)))\<rparr>"
      using a cancelCtx_cancel_done_any[OF x(2) False x(3), of rec n rfp e cause0] x(1) by simp
    then show ?thesis by simp
  next
    case True
    let ?c = "eff_cause e cause0"
    let ?sb = "begin_cancel a x e ?c s"
    from x(4) True have od: "\<And>d. done_c x = Some d \<Longrightarrow> \<not> is_closed s d" by simp
    have "andThen (forEach (\<lambda>child. rec child False (Some e) (Some ?c)) (kids s a) ?sb)
             (\<lambda>s5. if rfp then removeChild n (Context x) (CancelCtxPtr a) (finish_cancel a s5)
                    else Inr (finish_cancel a s5)) = Inr s'"
      using a x(1) cancelCtx_cancel_active[OF x(2) True x(3) od, of rec n rfp e cause0] by simp
    then obtain s5 where s5: "forEach (\<lambda>child. rec child False (Some e) (Some ?c)) (kids s a) ?sb = Inr s5"
      "(if rfp then removeChild n (Context x) (CancelCtxPtr a) (finish_cancel a s5)
        else Inr (finish_cancel a s5)) = Inr s'"
      by (rule andThen_InrE)
    have k1: "keeps s ?sb" by (rule keeps_begin_cancel[OF x(2) True])
    have k2: "keeps ?sb s5" by (rule forEach_keeps[OF _ s5(1)]) (rule rec)
    have k3: "keeps s5 (finish_cancel a s5)" by (rule keeps_finish_cancel)
    have k4: "keeps (finish_cancel a s5) s'"
      using s5(2) removeChild_keeps by (cases rfp) auto
    show ?thesis by (rule keeps_trans[OF keeps_trans[OF keeps_trans[OF k1 k2] k3] k4])
  qed
qed

lemma removeChild_opt_keeps:
  assumes "(if rfp then andThen (load a s1) (\<lambda>c1. removeChild n (Context c1) q s1) else Inr s1) = Inr s2"
  shows "keeps s1 s2"
proof (cases rfp)
  case True
  with assms have "andThen (load a s1) (\<lambda>c1. removeChild n (Context c1) q s1) = Inr s2"
    by simp
  then obtain c1 :: cancelCtx where "removeChild n (Context c1) q s1 = Inr s2"
    by (elim andThen_InrE) blast
  then show ?thesis by (rule removeChild_keeps)
next
  case False
  with assms show ?thesis by simp
qed

lemma cancel_keeps: "cancel n p rfp err0 cause0 s = Inr s' \<Longrightarrow> keeps s s'"
proof (induction n arbitrary: p rfp err0 cause0 s s')
  case 0
  then show ?case by simp
next
  case (Suc n)
  have rec: "keeps t t'" if "cancel n k r e c t = Inr t'" for k r e c t t'
    using that by (rule Suc.IH)
  have cc: "keeps t t'" if "cancelCtx_cancel (cancel n) m a r e c t = Inr t'" for m a r e c t t'
    using rec that by (rule cancelCtx_cancel_keeps)
  show ?case
  proof (cases p)
    case (CancelCtxPtr a)
    then show ?thesis using Suc.prems cc by simp
  next
    case (TimerCtxPtr a)
    with Suc.prems have "timerCtx_cancel (cancel n) (Suc n) a rfp err0 cause0 s = Inr s'" by simp
    from this[unfolded timerCtx_cancel_eq]
    obtain s1 s2 where s: "cancelCtx_cancel (cancel n) (Suc n) a False err0 cause0 s = Inr s1"
      "(if rfp then andThen (load a s1) (\<lambda>c1. removeChild (Suc n) (Context c1) (TimerCtxPtr a) s1)
        else Inr s1) = Inr s2"
      "stop_timer a s2 = Inr s'"
      by (elim andThen_InrE)
    show ?thesis
      by (rule keeps_trans[OF keeps_trans[OF cc[OF s(1)] removeChild_opt_keeps[OF s(2)]]
            stop_timer_keeps[OF s(3)]])
  next
    case (AfterFuncCtxPtr a)
    with Suc.prems have "afterFuncCtx_cancel (cancel n) (Suc n) a rfp err0 cause0 s = Inr s'"
      by simp
    from this[unfolded afterFuncCtx_cancel_eq]
    obtain s1 s2 where s: "cancelCtx_cancel (cancel n) (Suc n) a False err0 cause0 s = Inr s1"
      "(if rfp then andThen (load a s1) (\<lambda>c1. removeChild (Suc n) (Context c1) (AfterFuncCtxPtr a) s1)
        else Inr s1) = Inr s2"
      "run_once a s2 = Inr s'"
      by (elim andThen_InrE)
    show ?thesis
      by (rule keeps_trans[OF keeps_trans[OF cc[OF s(1)] removeChild_opt_keeps[OF s(2)]]
            run_once_keeps[OF s(3)]])
  qed
qed

lemma afterFuncer_case:
  "(case parent of Foreign dl ch e vf True \<Rightarrow> A | _ \<Rightarrow> B) = (if is_afterFuncer parent then A else B)"
  by (cases parent) (auto split: bool.splits)

lemma propagateCancel_eq:
  "propagateCancel n parent child s =
     andThen (load (addr_of child) s) (\<lambda>_.
     andThen (Done parent (modify (addr_of child) (\<lambda>x. x\<lparr>Context := parent\<rparr>) s)) (\<lambda>(d, s1).
       case d of
         None \<Rightarrow> Inr s1
       | Some dc \<Rightarrow>
           if is_closed s1 dc then cancel_now n parent child s1
           else
             andThen (parentCancelCtx n parent s1) (\<lambda>(r, s2).
               case r of
                 Some p \<Rightarrow> join_children n p child s2
               | None \<Rightarrow>
                   if is_afterFuncer parent then register_afterFunc parent child s2
                   else Inr (start_goroutine parent child s2))))"
  unfolding propagateCancel_def cancel_now_def join_children_def register_afterFunc_def
    start_goroutine_def afterFuncer_case Let_def
  by (rule refl)


lemma andThen_pairE:
  assumes "andThen m (\<lambda>(x, y). k x y) = Inr r"
  obtains x y where "m = Inr (x, y)" "k x y = Inr r"
  using assms by (cases m) auto

lemma cancel_now_keeps: "cancel_now n parent child s = Inr s' \<Longrightarrow> keeps s s'"
proof -
  assume "cancel_now n parent child s = Inr s'"
  then obtain e s2 ca s3 where "Err parent s = Inr (e, s2)" "Cause n parent s2 = Inr (ca, s3)"
    "cancel n child False e ca s3 = Inr s'"
    unfolding cancel_now_def by (elim andThen_pairE) blast
  then show ?thesis
    using keeps_trans[OF keeps_trans[OF Err_keeps Cause_keeps] cancel_keeps] by blast
qed

lemma keeps_unlock: "keeps s (unlock a s)"
  by (rule keeps_same) (simp_all add: unlock_def)

lemma lock_keeps: "lock a s = Inr s' \<Longrightarrow> keeps s s'"
  by (rule keeps_same) (auto dest: lock_InrD)

lemma join_children_keeps: "join_children n p child s = Inr s' \<Longrightarrow> keeps s s'"
proof -
  assume a: "join_children n p child s = Inr s'"
  then obtain s3 pc where s3: "lock p s = Inr s3" "load p s3 = Inr pc"
    and r: "(if err pc \<noteq> None then
         andThen (cancel n child False (err pc) (cause pc) s3) (\<lambda>s4. Inr (unlock p s4))
       else
         Inr (unlock p
           (modify p (\<lambda>x. x\<lparr>children :=
               Some (List.insert child (case children x of None \<Rightarrow> [] | Some cs \<Rightarrow> cs))\<rparr>) s3)))
       = Inr s'"
    unfolding join_children_def by (elim andThen_InrE)
  have k3: "keeps s s3" by (rule lock_keeps[OF s3(1)])
  have "keeps s3 s'"
  proof (cases "err pc = None")
    case True
    have "keeps s3 (modify p (\<lambda>x. x\<lparr>children :=
               Some (List.insert child (case children x of None \<Rightarrow> [] | Some cs \<Rightarrow> cs))\<rparr>) s3)"
      by (rule keeps_modify) (use load_InrD[OF s3(2)] True in simp)
    then show ?thesis using r True keeps_trans[OF _ keeps_unlock] by auto
  next
    case False
    with r obtain s4 where "cancel n child False (err pc) (cause pc) s3 = Inr s4"
      "s' = unlock p s4"
      by (auto elim: andThen_InrE)
    then show ?thesis using keeps_trans[OF cancel_keeps keeps_unlock] by blast
  qed
  with k3 show ?thesis by (rule keeps_trans)
qed

lemma register_afterFunc_keeps: "register_afterFunc parent child s = Inr s' \<Longrightarrow> keeps s s'"
proof -
  assume "register_afterFunc parent child s = Inr s'"
  then obtain s3 where s3: "lock (addr_of child) s = Inr s3"
    and s': "s' = unlock (addr_of child)
             (modify (addr_of child) (\<lambda>x. x\<lparr>Context := stopCtx parent (nxt_reg s3)\<rparr>)
                (s3\<lparr>registered := (registered s3)(nxt_reg s3 \<mapsto> (parent, child)),
                    nxt_reg := Suc (nxt_reg s3)\<rparr>))"
    unfolding register_afterFunc_def Let_def by (elim andThen_InrE) simp
  let ?s4 = "s3\<lparr>registered := (registered s3)(nxt_reg s3 \<mapsto> (parent, child)),
                nxt_reg := Suc (nxt_reg s3)\<rparr>"
  have "keeps s s3" by (rule lock_keeps[OF s3])
  moreover have "keeps s3 ?s4" by (rule keeps_same) simp_all
  moreover have "keeps ?s4 (modify (addr_of child) (\<lambda>x. x\<lparr>Context := stopCtx parent (nxt_reg s3)\<rparr>) ?s4)"
    by (rule keeps_modify) simp
  ultimately show ?thesis unfolding s' using keeps_unlock keeps_trans by blast
qed

lemma start_goroutine_keeps: "keeps s (start_goroutine parent child s)"
  by (rule keeps_same) (simp_all add: start_goroutine_def)

lemma propagateCancel_keeps: "propagateCancel n parent child s = Inr s' \<Longrightarrow> keeps s s'"
proof -
  assume a: "propagateCancel n parent child s = Inr s'"
  let ?s0 = "modify (addr_of child) (\<lambda>x. x\<lparr>Context := parent\<rparr>) s"
  have k0: "keeps s ?s0" by (rule keeps_modify) simp
  from a[unfolded propagateCancel_eq] obtain d s1 where d: "Done parent ?s0 = Inr (d, s1)"
    and r: "(case d of
         None \<Rightarrow> Inr s1
       | Some dc \<Rightarrow>
           if is_closed s1 dc then cancel_now n parent child s1
           else
             andThen (parentCancelCtx n parent s1) (\<lambda>(r, s2).
               case r of
                 Some p \<Rightarrow> join_children n p child s2
               | None \<Rightarrow>
                   if is_afterFuncer parent then register_afterFunc parent child s2
                   else Inr (start_goroutine parent child s2))) = Inr s'"
    by (elim andThen_InrE) auto
  have k1: "keeps ?s0 s1" by (rule Done_keeps[OF d])
  have "keeps s1 s'"
  proof (cases d)
    case None
    with r show ?thesis by simp
  next
    case (Some dc)
    show ?thesis
    proof (cases "is_closed s1 dc")
      case True
      with r Some show ?thesis by (simp add: cancel_now_keeps)
    next
      case False
      with r Some obtain rr s2 where p: "parentCancelCtx n parent s1 = Inr (rr, s2)"
        and r2: "(case rr of
                 Some p \<Rightarrow> join_children n p child s2
               | None \<Rightarrow>
                   if is_afterFuncer parent then register_afterFunc parent child s2
                   else Inr (start_goroutine parent child s2)) = Inr s'"
        by (auto elim!: andThen_InrE)
      have "keeps s2 s'"
        using r2 join_children_keeps register_afterFunc_keeps start_goroutine_keeps
        by (auto split: option.splits if_splits)
      with parentCancelCtx_keeps[OF p] show ?thesis by (rule keeps_trans)
    qed
  qed
  with keeps_trans[OF k0 k1] show ?thesis by (rule keeps_trans)
qed

lemma withCancel_eq:
  "parent \<noteq> NilContext \<Longrightarrow>
   withCancel n parent s =
     andThen (propagateCancel n parent (CancelCtxPtr (nxt s)) (new_node s)) (\<lambda>s2. Inr (nxt s, s2))"
  by (cases parent) (simp_all add: withCancel_def new_node_def Let_def)

lemma WithDeadlineCause_eq:
  "parent \<noteq> NilContext \<Longrightarrow>
   WithDeadlineCause n parent d cause0 s =
     andThen (Deadline n parent s) (\<lambda>cur.
       if earlier cur d then WithCancel n parent s
       else
         andThen (propagateCancel n parent (TimerCtxPtr (nxt s)) (new_timerCtx d s)) (\<lambda>s2.
           if d - now s2 \<le> 0 then
             andThen (cancel n (TimerCtxPtr (nxt s)) True (Some DeadlineExceeded) cause0 s2)
               (\<lambda>s3. Inr ((Ptr (TimerCtxPtr (nxt s)), CancelFunc (TimerCtxPtr (nxt s)) False), s3))
           else
             andThen (arm_timer (nxt s) d cause0 s2)
               (\<lambda>s4. Inr ((Ptr (TimerCtxPtr (nxt s)), CancelFunc (TimerCtxPtr (nxt s)) True), s4))))"
  by (cases parent)
     (simp_all add: WithDeadlineCause_def new_timerCtx_def arm_timer_def earlier_def Let_def
        andThen_assoc cong: if_cong)

lemma keeps_alloc:
  assumes "cancelCtxs s' = (cancelCtxs s)(nxt s \<mapsto> x)" "nxt s' = Suc (nxt s)"
    "closed s' = closed s"
  shows "keeps s s'"
  unfolding keeps_def settled_def using assms by (auto split: option.splits)

lemma withCancel_keeps: "withCancel n parent s = Inr (c, s') \<Longrightarrow> keeps s s'"
proof -
  assume a: "withCancel n parent s = Inr (c, s')"
  then have np: "parent \<noteq> NilContext" by (auto simp: withCancel_def)
  from a[unfolded withCancel_eq[OF np]]
  have "propagateCancel n parent (CancelCtxPtr (nxt s)) (new_node s) = Inr s'"
    by (auto elim: andThen_InrE)
  from propagateCancel_keeps[OF this] show ?thesis
    by (rule keeps_trans[OF keeps_alloc, rotated -1]) (simp_all add: new_node_def)
qed

lemma WithCancel_keeps: "WithCancel n parent s = Inr (r, s') \<Longrightarrow> keeps s s'"
  unfolding WithCancel_def by (elim andThen_pairE) (auto dest: withCancel_keeps)

lemma arm_timer_keeps: "arm_timer c d cause0 s = Inr s' \<Longrightarrow> keeps s s'"
  by (rule keeps_same)
     (auto simp: arm_timer_def lock_def unlock_def time_AfterFunc_def elim!: andThen_InrE
        split: if_splits)

lemma WithDeadlineCause_keeps:
  assumes a: "WithDeadlineCause n parent d cause0 s = Inr (r, s')"
  shows "keeps s s'"
proof -
  from a have np: "parent \<noteq> NilContext" by (auto simp: WithDeadlineCause_def)
  from a[unfolded WithDeadlineCause_eq[OF np]] obtain cur where
    r: "(if earlier cur d then WithCancel n parent s
       else
         andThen (propagateCancel n parent (TimerCtxPtr (nxt s)) (new_timerCtx d s)) (\<lambda>s2.
           if d - now s2 \<le> 0 then
             andThen (cancel n (TimerCtxPtr (nxt s)) True (Some DeadlineExceeded) cause0 s2)
               (\<lambda>s3. Inr ((Ptr (TimerCtxPtr (nxt s)), CancelFunc (TimerCtxPtr (nxt s)) False), s3))
           else
             andThen (arm_timer (nxt s) d cause0 s2)
               (\<lambda>s4. Inr ((Ptr (TimerCtxPtr (nxt s)), CancelFunc (TimerCtxPtr (nxt s)) True), s4))))
       = Inr (r, s')"
    by (rule andThen_InrE)
  show ?thesis
  proof (cases "earlier cur d")
    case True
    with r show ?thesis by (simp add: WithCancel_keeps)
  next
    case False
    with r obtain s2 where s2: "propagateCancel n parent (TimerCtxPtr (nxt s)) (new_timerCtx d s) = Inr s2"
      and r2: "(if d - now s2 \<le> 0 then
             andThen (cancel n (TimerCtxPtr (nxt s)) True (Some DeadlineExceeded) cause0 s2)
               (\<lambda>s3. Inr ((Ptr (TimerCtxPtr (nxt s)), CancelFunc (TimerCtxPtr (nxt s)) False), s3))
           else
             andThen (arm_timer (nxt s) d cause0 s2)
               (\<lambda>s4. Inr ((Ptr (TimerCtxPtr (nxt s)), CancelFunc (TimerCtxPtr (nxt s)) True), s4)))
          = Inr (r, s')"
      by (auto elim: andThen_InrE)
    have k1: "keeps s (new_timerCtx d s)" by (rule keeps_alloc) (simp_all add: new_timerCtx_def)
    have k2: "keeps (new_timerCtx d s) s2" by (rule propagateCancel_keeps[OF s2])
    have "keeps s2 s'"
      using r2 cancel_keeps arm_timer_keeps by (auto elim!: andThen_InrE split: if_splits)
    with keeps_trans[OF k1 k2] show ?thesis by (rule keeps_trans)
  qed
qed

lemma AfterFunc_keeps: "AfterFunc n ctx f s = Inr (a, s') \<Longrightarrow> keeps s s'"
proof -
  assume "AfterFunc n ctx f s = Inr (a, s')"
  then have "propagateCancel n ctx (AfterFuncCtxPtr (nxt s))
      (s\<lparr>cancelCtxs := (cancelCtxs s)(nxt s \<mapsto> new_cancelCtx),
         afterFuncCtxs := (afterFuncCtxs s)(nxt s \<mapsto> \<lparr>once = False, fn = f\<rparr>),
         nxt := Suc (nxt s)\<rparr>) = Inr s'"
    by (auto simp: AfterFunc_def Let_def elim!: andThen_InrE)
  from propagateCancel_keeps[OF this] show ?thesis
    by (rule keeps_trans[OF keeps_alloc, rotated -1]) simp_all
qed

lemma call_stop_keeps: "call_stop n a s = Inr (b, s') \<Longrightarrow> keeps s s'"
proof -
  assume a: "call_stop n a s = Inr (b, s')"
  then obtain af where af: "afterFuncCtxs s a = Some af"
    by (auto simp: call_stop_def split: option.splits)
  show ?thesis
  proof (cases "once af")
    case True
    with a af show ?thesis by (simp add: call_stop_def)
  next
    case False
    let ?s1 = "s\<lparr>afterFuncCtxs := (afterFuncCtxs s)(a \<mapsto> af\<lparr>once := True\<rparr>)\<rparr>"
    from a af False have "cancel n (AfterFuncCtxPtr a) True (Some Canceled) None ?s1 = Inr s'"
      by (auto simp: call_stop_def elim!: andThen_InrE)
    from cancel_keeps[OF this] show ?thesis
      by (rule keeps_trans[OF keeps_same, rotated -1]) simp_all
  qed
qed

lemma run_registered_keeps: "run_registered n h s = Inr s' \<Longrightarrow> keeps s s'"
proof (cases "registered s h")
  case None
  assume "run_registered n h s = Inr s'"
  with None show ?thesis by (simp add: run_registered_def)
next
  case (Some pc)
  assume a: "run_registered n h s = Inr s'"
  obtain parent child where pc: "pc = (parent, child)" by (cases pc)
  let ?s0 = "s\<lparr>registered := (registered s)(h := None)\<rparr>"
  from a Some pc have "cancel_now n parent child ?s0 = Inr s'"
    by (simp add: run_registered_def cancel_now_def)
  from cancel_now_keeps[OF this] show ?thesis
    by (rule keeps_trans[OF keeps_same, rotated -1]) simp_all
qed

lemma run_waiter_keeps: "run_waiter n i s = Inr s' \<Longrightarrow> keeps s s'"
proof (cases "length (waiters s) \<le> i")
  case True
  assume "run_waiter n i s = Inr s'"
  with True show ?thesis by (simp add: run_waiter_def)
next
  case False
  assume a: "run_waiter n i s = Inr s'"
  obtain parent child where pc: "waiters s ! i = (parent, child)" by (cases "waiters s ! i")
  from a False pc obtain pd s1 cd s2 where d: "Done parent s = Inr (pd, s1)"
    "Done (Ptr child) s1 = Inr (cd, s2)"
    and r: "(let s3 = s2\<lparr>waiters := take i (waiters s2) @ drop (Suc i) (waiters s2)\<rparr> in
              if (case pd of None \<Rightarrow> False | Some d \<Rightarrow> is_closed s2 d) then
                cancel_now n parent child s3
              else if (case cd of None \<Rightarrow> False | Some d \<Rightarrow> is_closed s2 d) then Inr s3
              else Inr s2) = Inr s'"
    unfolding run_waiter_def cancel_now_def by (auto elim!: andThen_pairE)
  let ?s3 = "s2\<lparr>waiters := take i (waiters s2) @ drop (Suc i) (waiters s2)\<rparr>"
  have k3: "keeps s2 ?s3" by (rule keeps_same) simp_all
  have "keeps s2 s'"
    using r k3 keeps_trans[OF k3 cancel_now_keeps] by (auto simp: Let_def split: if_splits)
  with keeps_trans[OF Done_keeps[OF d(1)] Done_keeps[OF d(2)]] show ?thesis
    by (rule keeps_trans)
qed

lemma timer_fire_keeps: "timer_fire n tm s = Inr s' \<Longrightarrow> keeps s s'"
proof (cases "timers s tm")
  case None
  assume "timer_fire n tm s = Inr s'"
  with None show ?thesis by (simp add: timer_fire_def)
next
  case (Some t)
  assume a: "timer_fire n tm s = Inr s'"
  show ?thesis
  proof (cases "now s < fires_at t")
    case True
    with a Some show ?thesis by (simp add: timer_fire_def)
  next
    case False
    with a Some have "cancel n (TimerCtxPtr (target t)) True (Some DeadlineExceeded) (tcause t)
                 (s\<lparr>timers := (timers s)(tm := None)\<rparr>) = Inr s'"
      by (simp add: timer_fire_def)
    from cancel_keeps[OF this] show ?thesis
      by (rule keeps_trans[OF keeps_same, rotated -1]) simp_all
  qed
qed

lemma exec_keeps: "exec n x s = Inr s' \<Longrightarrow> keeps s s'"
proof (cases x)
  case (CallCancel p r e c)
  assume "exec n x s = Inr s'"
  with CallCancel show ?thesis by (simp add: cancel_keeps)
next
  case (CallWithCancel parent)
  assume "exec n x s = Inr s'"
  with CallWithCancel show ?thesis by (auto elim!: andThen_InrE dest: WithCancel_keeps)
next
  case (CallWithDeadlineCause parent d c)
  assume "exec n x s = Inr s'"
  with CallWithDeadlineCause show ?thesis
    by (auto elim!: andThen_InrE dest: WithDeadlineCause_keeps)
next
  case (CallAfterFunc ctx f)
  assume "exec n x s = Inr s'"
  with CallAfterFunc show ?thesis by (auto elim!: andThen_InrE dest: AfterFunc_keeps)
next
  case (CallStop a)
  assume "exec n x s = Inr s'"
  with CallStop show ?thesis by (auto elim!: andThen_InrE dest: call_stop_keeps)
next
  case (CallDone c)
  assume "exec n x s = Inr s'"
  with CallDone show ?thesis by (auto elim!: andThen_InrE dest: Done_keeps)
next
  case (CallErr c)
  assume "exec n x s = Inr s'"
  with CallErr show ?thesis by (auto elim!: andThen_InrE dest: Err_keeps)
next
  case (CallCause c)
  assume "exec n x s = Inr s'"
  with CallCause show ?thesis by (auto elim!: andThen_InrE dest: Cause_keeps)
next
  case (TimerFires tm)
  assume "exec n x s = Inr s'"
  with TimerFires show ?thesis by (simp add: timer_fire_keeps)
next
  case (CallbackRuns h)
  assume "exec n x s = Inr s'"
  with CallbackRuns show ?thesis by (simp add: run_registered_keeps)
next
  case (WaiterRuns i)
  assume "exec n x s = Inr s'"
  with WaiterRuns show ?thesis by (simp add: run_waiter_keeps)
next
  case (ClockAdvances d)
  assume "exec n x s = Inr s'"
  with ClockAdvances show ?thesis by (auto intro: keeps_same)
qed

lemma run_keeps: "run n ops s = Inr s' \<Longrightarrow> keeps s s'"
  unfolding run_def by (rule forEach_keeps[of ops "exec n", rotated]) (auto dest: exec_keeps)

lemma run_settled: "run n ops s = Inr s' \<Longrightarrow> settled s a e c \<Longrightarrow> settled s' a e c"
  using run_keeps[of n ops s s'] by (simp add: keeps_def)

lemma family_built: "family_calls = Inr family"
  by (simp add: family_calls_def family_def WithCancel_def withCancel_def WithDeadline_def
      WithDeadlineCause_def propagateCancel_def andThen_def
      init_def load_def lock_def unlock_def modify_def make_chan_def cancelCtx_Done_def
      parentCancelCtx_def new_cancelCtx_def is_closed_def time_AfterFunc_def Let_def
      numeral_eq_Suc Value_key)

lemma family_kids:
  "kids family a = (if a = 0 then [CancelCtxPtr 1] else if a = 1 then [TimerCtxPtr 2] else [])"
  by (simp add: kids_def family_def)

lemma family_active: "active family a = (a < 3)"
  by (auto simp: active_def family_def)

lemma family_heap_ok: "heap_ok family"
  unfolding heap_ok_def family_kids
  by (auto simp: family_def split: if_splits)

lemma family_tree_ok: "tree_ok family"
  unfolding tree_ok_def store_ok_def family_kids
  using family_heap_ok by (auto simp: family_active) (auto simp: family_def split: if_splits)

lemma family_desc: "desc family 0 (CancelCtxPtr 1)" "desc family 0 (TimerCtxPtr 2)"
proof -
  show a: "desc family 0 (CancelCtxPtr 1)" by (rule desc.child) (simp add: family_kids)
  show "desc family 0 (TimerCtxPtr 2)"
    by (rule desc.grandchild[OF a]) (simp add: family_kids)
qed

lemma desc_active:
  assumes t: "tree_ok s" and d: "desc s a k"
  shows "active s a"
  using d
proof (induction rule: desc.induct)
  case (child k) then show ?case by (rule tree_ok_kids_active[OF t])
next
  case (grandchild k k') then show ?case by simp
qed

lemma tree_ok_settled:
  assumes t: "tree_ok s" and x: "cancelCtxs s a = Some x" and e: "err x = Some e0"
  shows "\<exists>c0. settled s a e0 c0"
proof -
  have ne: "err x \<noteq> None" using e by simp
  obtain c0 where c0: "cause x = Some c0" using tree_okD(5)[OF t x ne] by auto
  have "settled s a e0 c0"
    unfolding settled_def
    using heap_okD(1)[OF tree_okD(2)[OF t], of a] heap_okD(4)[OF tree_okD(2)[OF t] x ne]
      tree_okD(4)[OF t x ne] x e c0 by simp
  then show ?thesis ..
qed

lemma settled_children: "settled s a e c \<Longrightarrow> kids s a = []"
  by (auto simp: settled_def kids_def split: option.splits)

lemma valid_ptr_node: "valid_ptr s p \<Longrightarrow> \<exists>x. cancelCtxs s (addr_of p) = Some x"
  by (cases p) auto

lemma cancel_settles:
  assumes t: "tree_ok s" and v: "valid_ptr s p" and fuel: "nxt s \<le> n"
  shows "\<exists>s' e0 c0. cancel n p rfp (Some e) cause0 s = Inr s' \<and> store_ok s' \<and>
           settled s' (addr_of p) e0 c0 \<and> stopped s' p \<and>
           (active s (addr_of p) \<longrightarrow> e0 = e \<and> c0 = eff_cause e cause0) \<and>
           (\<forall>k. desc s (addr_of p) k \<longrightarrow>
                settled s' (addr_of k) e (eff_cause e cause0) \<and> stopped s' k)"
proof -
  let ?a = "addr_of p" and ?c = "eff_cause e cause0"
  have fuel': "nxt s \<le> n + ?a" using fuel by simp
  obtain s1 s' where r: "cancel n p rfp (Some e) cause0 s = Inr s'"
    and c: "casc e ?c s s1" and ok1: "heap_ok s1" and q: "quiet s1 s'" and w': "store_ok s'"
    and na: "\<not> active s' ?a" and st: "stopped s' p"
    using cancel_top[OF tree_okD(1)[OF t] v fuel', of rfp e cause0] by blast
  have na1: "\<not> active s1 ?a" using na quiet_active[OF q, of ?a] by simp
  have d: "settled s' (addr_of k) e ?c \<and> stopped s' k" if dk: "desc s ?a k" for k
  proof -
    have a: "active s ?a" by (rule desc_active[OF t dk])
    have "settled s1 (addr_of k) e ?c \<and> stopped s1 k"
      using casc_desc[OF t c ok1 a na1 dk] by simp
    then show ?thesis using quiet_settled[OF q] quiet_stopped[OF q] by blast
  qed
  have own: "\<exists>e0 c0. settled s' ?a e0 c0 \<and> (active s ?a \<longrightarrow> e0 = e \<and> c0 = ?c)"
  proof (cases "active s ?a")
    case True
    obtain x where "cancelCtxs s1 ?a = Some (cancelled_node e ?c x)"
      using casc_changed[OF c True na1] by blast
    then have "settled s1 ?a e ?c" by (rule cancelled_settled[OF ok1])
    then have "settled s' ?a e ?c" by (rule quiet_settled[OF q])
    then show ?thesis by blast
  next
    case False
    obtain x where x: "cancelCtxs s ?a = Some x" using valid_ptr_node[OF v] by blast
    then obtain e0 where e0: "err x = Some e0" using False by (auto simp: active_def)
    obtain c0 where "settled s ?a e0 c0" using tree_ok_settled[OF t x e0] by blast
    then have "settled s' ?a e0 c0" using cancel_keeps[OF r] by (simp add: keeps_def)
    then show ?thesis using False by blast
  qed
  then obtain e0 c0 where "settled s' ?a e0 c0" "active s ?a \<longrightarrow> e0 = e \<and> c0 = ?c" by blast
  then show ?thesis using r w' st d by blast
qed

section \<open>Value lookup\<close>








text \<open>
  Claim C10.  \<^verbatim>\<open>WithValue\<close> panics exactly when the parent is \<^verbatim>\<open>nil\<close>, the key is \<^verbatim>\<open>nil\<close>, or
  the dynamic type of the key is not comparable; in every other case it returns the
  \<^verbatim>\<open>valueCtx\<close> that stores this one key and value over the given parent.
\<close>

theorem WithValue_panics_iff:
  "((\<exists>m. WithValue parent key val = Inl (Panic m)) \<longleftrightarrow>
      (parent = NilContext \<or> key = Nil \<or> \<not> Comparable key)) \<and>
   (parent \<noteq> NilContext \<longrightarrow> key \<noteq> Nil \<longrightarrow> Comparable key \<longrightarrow>
      WithValue parent key val = Inr (valueCtx parent key val))"
  by (auto simp: WithValue_def split: Context.splits any.splits)

theorem WithValue_panics_iff_witness:
  "WithValue backgroundCtx (Dyn (ComparableT 0) 1) Nil =
     Inr (valueCtx backgroundCtx (Dyn (ComparableT 0) 1) Nil)
   \<and> (\<exists>m. WithValue backgroundCtx (Dyn (UncomparableT 0) 1) Nil = Inl (Panic m))"
  using WithValue_panics_iff [of backgroundCtx "Dyn (ComparableT 0) 1" Nil]
        WithValue_panics_iff [of backgroundCtx "Dyn (UncomparableT 0) 1" Nil]
  by simp

text \<open>
  Claim C1.  On a store that satisfies the invariant of the children sets, with fuel for
  the depth of the tree, the call \<^verbatim>\<open>cancel(removeFromParent, e, cause)\<close> on a cancelable node
  returns, and when it has returned every canceler registered in the children set of the
  node, transitively, is canceled with the error \<open>e\<close> and the cause of the call (\<open>e\<close> itself
  when the cause is \<^verbatim>\<open>nil\<close>), its done channel closed, and the children set of the node is
  empty.  Both stay so after any further calls and steps of the environment.
\<close>

theorem cancel_reaches_descendants:
  assumes "tree_ok s" and "valid_ptr s p" and "nxt s \<le> n"
  shows "\<exists>s'. cancel n p removeFromParent (Some e) cause0 s = Inr s' \<and>
           (\<forall>k. desc s (addr_of p) k \<longrightarrow> settled s' (addr_of k) e (eff_cause e cause0)) \<and>
           kids s' (addr_of p) = [] \<and>
           (\<forall>m ops s''. run m ops s' = Inr s'' \<longrightarrow>
              (\<forall>k. desc s (addr_of p) k \<longrightarrow> settled s'' (addr_of k) e (eff_cause e cause0)) \<and>
              kids s'' (addr_of p) = [])"
proof -
  obtain s' e0 c0 where r: "cancel n p removeFromParent (Some e) cause0 s = Inr s'"
    and own: "settled s' (addr_of p) e0 c0"
    and d: "\<And>k. desc s (addr_of p) k \<Longrightarrow> settled s' (addr_of k) e (eff_cause e cause0)"
    using cancel_settles[OF assms, of removeFromParent e cause0] by blast
  have later: "(\<forall>k. desc s (addr_of p) k \<longrightarrow> settled s'' (addr_of k) e (eff_cause e cause0)) \<and>
      kids s'' (addr_of p) = []" if "run m ops s' = Inr s''" for m ops s''
    using run_settled[OF that] own d settled_children by blast
  show ?thesis
    using r d settled_children[OF own] later by blast
qed

theorem cancel_reaches_descendants_witness:
  "\<exists>s'. cancel 3 (CancelCtxPtr 0) True (Some Canceled) None family = Inr s' \<and>
     settled s' 1 Canceled Canceled \<and> settled s' 2 Canceled Canceled \<and> kids s' 0 = []"
proof -
  have v: "valid_ptr family (CancelCtxPtr 0)" and n: "nxt family \<le> 3"
    by (simp_all add: family_def)
  obtain s' where r: "cancel 3 (CancelCtxPtr 0) True (Some Canceled) None family = Inr s'"
    and d: "\<And>k. desc family 0 k \<Longrightarrow> settled s' (addr_of k) Canceled (eff_cause Canceled None)"
    and k: "kids s' 0 = []"
    using cancel_reaches_descendants[OF family_tree_ok v n, of True Canceled None] by auto
  show ?thesis
    using r d[OF family_desc(1)] d[OF family_desc(2)] k by (simp add: eff_cause_def)
qed

end
